theory Spec2Isabelle
  imports Main "HOL-Library.Multiset"
begin

section \<open>Literals, clauses and the clause capability\<close>

text \<open>
  The preprocessor (\<^verbatim>\<open>Preprocessor.go\<close>) works on a \<^verbatim>\<open>Problem\<close> whose clauses are
  objects of a \<^verbatim>\<open>Clause\<close> type and whose literals are values of a \<^verbatim>\<open>Lit\<close> type. The
  declarations of \<^verbatim>\<open>Lit\<close>, \<^verbatim>\<open>Var\<close>, \<^verbatim>\<open>Clause\<close> and of the \<^verbatim>\<open>Status\<close> constants are
  not part of the source file; the preprocessor only uses them.

  A literal indexes the occurrence lists directly (\<^verbatim>\<open>occurs[c.Get(j)]\<close>, an array of
  \<^verbatim>\<open>NbVars*2\<close> entries), so a literal is a natural number and a variable \<open>v\<close> owns the
  two literals \<open>2 * v\<close> (positive) and \<open>2 * v + 1\<close> (negated).
\<close>

type_synonym var = nat
type_synonym lit = nat
type_synonym clause = "lit list"

text \<open>Modelled from the spec: \<^verbatim>\<open>Var.Lit()\<close>, the positive literal of a variable; its
  declaration is missing from the source.\<close>

definition var_Lit :: "var \<Rightarrow> lit" where
  "var_Lit v = 2 * v"

text \<open>Modelled from the spec: \<^verbatim>\<open>Lit.Var()\<close>, the variable of a literal; its declaration
  is missing from the source.\<close>

definition lit_Var :: "lit \<Rightarrow> var" where
  "lit_Var l = l div 2"

text \<open>Modelled from the spec: \<^verbatim>\<open>Lit.IsPositive()\<close>, the polarity of a literal; its
  declaration is missing from the source.\<close>

definition IsPositive :: "lit \<Rightarrow> bool" where
  "IsPositive l = even l"

text \<open>Modelled from the spec: \<^verbatim>\<open>Lit.Negation()\<close>, the literal of the same variable and the
  other polarity; its declaration is missing from the source.\<close>

definition Negation :: "lit \<Rightarrow> lit" where
  "Negation l = (if even l then l + 1 else l - 1)"

text \<open>
  The four clause operations the passes call and whose bodies are missing from the source
  (\<^verbatim>\<open>SelfSubsumes\<close>, \<^verbatim>\<open>Generate\<close>, \<^verbatim>\<open>Simplify\<close>, \<^verbatim>\<open>Subsumes\<close>) are a parameter of the
  model. \<^verbatim>\<open>Simplify\<close> mutates its receiver and returns whether the clause is trivially
  satisfied; here it returns that flag and the new contents.
\<close>

record clause_ops =
  selfSubsumes :: "clause \<Rightarrow> clause \<Rightarrow> bool"
  generate :: "clause \<Rightarrow> clause \<Rightarrow> var \<Rightarrow> clause"
  simplify :: "clause \<Rightarrow> bool \<times> clause"
  subsumes :: "clause \<Rightarrow> clause \<Rightarrow> bool"

text \<open>Modelled from the spec: the subsumption test, "decide whether this clause's literals
  are a subset of another's"; the body of \<^verbatim>\<open>Clause.Subsumes\<close> is missing from the source.\<close>

definition spec_subsumes :: "clause \<Rightarrow> clause \<Rightarrow> bool" where
  "spec_subsumes c d = list_all (\<lambda>l. l \<in> set d) c"

text \<open>Modelled from the spec: resolve, "produce the resolvent clause of two clauses on a
  pivot variable"; the body of \<^verbatim>\<open>Clause.Generate\<close> is missing from the source.\<close>

definition spec_generate :: "clause \<Rightarrow> clause \<Rightarrow> var \<Rightarrow> clause" where
  "spec_generate c d v = filter (\<lambda>l. lit_Var l \<noteq> v) c @ filter (\<lambda>l. lit_Var l \<noteq> v) d"

text \<open>Modelled from the spec: self-simplify, "detect and collapse a clause that is
  trivially satisfiable (a tautology), returning whether it was eliminated"; repeated
  literals collapse to one (the spec's scenario C turns \<open>x2 \<or> x2\<close> into the unit \<open>x2\<close>).
  The body of \<^verbatim>\<open>Clause.Simplify\<close> is missing from the source.\<close>

definition spec_simplify :: "clause \<Rightarrow> bool \<times> clause" where
  "spec_simplify c =
     (if list_ex (\<lambda>l. Negation l \<in> set c) c then (True, c) else (False, remdups c))"

text \<open>Modelled from the spec: the self-subsumption test, "decide whether resolving on
  that variable would let one clause be absorbed into a shrunken form of the other": one
  literal of the first clause occurs negated in the second, every other literal of the
  first clause occurs in the second. The body of \<^verbatim>\<open>Clause.SelfSubsumes\<close> is missing from
  the source.\<close>

definition spec_selfSubsumes :: "clause \<Rightarrow> clause \<Rightarrow> bool" where
  "spec_selfSubsumes c d =
     list_ex (\<lambda>l. Negation l \<in> set d \<and> list_all (\<lambda>k. k = l \<or> k \<in> set d) c) c"

definition spec_ops :: clause_ops where
  "spec_ops = \<lparr> selfSubsumes = spec_selfSubsumes, generate = spec_generate,
                simplify = spec_simplify, subsumes = spec_subsumes \<rparr>"

section \<open>Run-time panics\<close>

text \<open>
  Go stops the program with a run-time panic when a slice is indexed out of range or a nil
  pointer is dereferenced. Every operation of the model returns \<open>error + 'a\<close>, \<open>Inl\<close> being
  the panic.
\<close>

datatype error = IndexOutOfRange | NilDereference

definition ebind :: "error + 'a \<Rightarrow> ('a \<Rightarrow> error + 'b) \<Rightarrow> error + 'b" where
  "ebind m f = (case m of Inl e \<Rightarrow> Inl e | Inr x \<Rightarrow> f x)"

definition at :: "'a list \<Rightarrow> nat \<Rightarrow> error + 'a" where
  "at xs i = (if i < length xs then Inr (xs ! i) else Inl IndexOutOfRange)"

text \<open>A loop over a list whose body may panic.\<close>

fun foldE :: "('s \<Rightarrow> 'a \<Rightarrow> error + 's) \<Rightarrow> 's \<Rightarrow> 'a list \<Rightarrow> error + 's" where
  "foldE f s [] = Inr s"
| "foldE f s (x # xs) = (case f s x of Inl e \<Rightarrow> Inl e | Inr s' \<Rightarrow> foldE f s' xs)"

section \<open>The problem\<close>

text \<open>Modelled from the spec: the tri-state Status; the declaration of the constants
  \<^verbatim>\<open>Undetermined\<close>, \<^verbatim>\<open>Sat\<close> and \<^verbatim>\<open>Unsat\<close> is missing from the source.\<close>

datatype Status = Undetermined | Sat | Unsat

text \<open>
  \<^verbatim>\<open>Clauses\<close> is a slice of pointers (\<^verbatim>\<open>[]*Clause\<close>) and \<^verbatim>\<open>Simplify2\<close> changes clauses in
  place, so two positions that hold the same pointer change together. The clause objects
  live in \<open>Store\<close>; \<open>Clauses\<close> holds their addresses (indices into \<open>Store\<close>). A new clause
  object is allocated at the end of \<open>Store\<close>. The fields \<^verbatim>\<open>minLits\<close> and \<^verbatim>\<open>minWeights\<close> are
  used by no function of the file and are left out.
\<close>

record Problem =
  NbVars :: nat
  Clauses :: "nat list"
  Status :: Status
  Units :: "lit list"
  Model :: "int list"
  Store :: "clause list"

definition deref :: "Problem \<Rightarrow> nat \<Rightarrow> error + clause" where
  "deref pb a = (if a < length (Store pb) then Inr (Store pb ! a) else Inl NilDereference)"

text \<open>The clauses of the database as values, in database order.\<close>

definition clauseDB :: "Problem \<Rightarrow> clause list" where
  "clauseDB pb = map (\<lambda>a. Store pb ! a) (Clauses pb)"

subsection \<open>updateStatus and addUnit\<close>

text \<open>
  \<^verbatim>\<open>pb.Clauses = pb.Clauses[:nbClauses]\<close> re-slices within the capacity of the slice, not
  within its length: a length beyond the current one and within the capacity lengthens
  the slice over its backing array, and only a negative length or one beyond the capacity
  panics. The capacity is no field of \<^verbatim>\<open>Problem\<close>: \<open>spare\<close> is the part of the backing
  array that follows the last element of \<^verbatim>\<open>pb.Clauses\<close>, so that the capacity is
  \<open>length (Clauses pb) + length spare\<close>. \<^verbatim>\<open>nbClauses\<close> is a Go \<^verbatim>\<open>int\<close>.
\<close>

definition updateStatus :: "Problem \<Rightarrow> nat list \<Rightarrow> int \<Rightarrow> error + Problem" where
  "updateStatus pb spare nbClauses =
     (if 0 \<le> nbClauses \<and> nat nbClauses \<le> length (Clauses pb) + length spare then
        let pb1 = pb\<lparr>Clauses := take (nat nbClauses) (Clauses pb @ spare)\<rparr> in
        if Status pb1 = Undetermined \<and> nbClauses = 0 then Inr (pb1\<lparr>Status := Sat\<rparr>)
        else Inr pb1
      else Inl IndexOutOfRange)"

definition addUnit :: "Problem \<Rightarrow> lit \<Rightarrow> error + Problem" where
  "addUnit pb l =
     ebind (at (Model pb) (lit_Var l)) (\<lambda>m.
       if IsPositive l then
         (if m = - 1 then Inr (pb\<lparr>Status := Unsat\<rparr>)
          else Inr (pb\<lparr>Model := (Model pb)[lit_Var l := 1], Units := Units pb @ [l]\<rparr>))
       else
         (if m = 1 then Inr (pb\<lparr>Status := Unsat\<rparr>)
          else Inr (pb\<lparr>Model := (Model pb)[lit_Var l := - 1], Units := Units pb @ [l]\<rparr>)))"

subsection \<open>Simplify2: unit propagation\<close>

text \<open>
  The scan of one clause (the loop \<^verbatim>\<open>for j < nbLits\<close>): the result is the clause contents
  after the \<^verbatim>\<open>c.Set\<close> calls, the number of literals kept, and \<^verbatim>\<open>clauseSat\<close>.
\<close>

function scanLits :: "int list \<Rightarrow> clause \<Rightarrow> nat \<Rightarrow> nat \<Rightarrow> error + (clause \<times> nat \<times> bool)" where
  "scanLits model c j nbLits =
     (if j < nbLits then
        (case at c j of
           Inl e \<Rightarrow> Inl e
         | Inr l \<Rightarrow>
            (case at model (lit_Var l) of
               Inl e \<Rightarrow> Inl e
             | Inr m \<Rightarrow>
                if m = 0 then scanLits model c (j + 1) nbLits
                else if (m = 1) = IsPositive l then Inr (c, nbLits, True)
                else
                  (case at c (nbLits - 1) of
                     Inl e \<Rightarrow> Inl e
                   | Inr l' \<Rightarrow> scanLits model (c[j := l']) j (nbLits - 1))))
      else Inr (c, nbLits, False))"
  by pat_completeness auto
termination
  by (relation "measure (\<lambda>(model, c, j, nbLits). nbLits - j)") auto

text \<open>
  The body of the loop \<^verbatim>\<open>for i < nbClauses\<close>, for the clause at position \<open>i\<close>: the
  function returns early (\<open>Halt\<close>, Status Unsat), or the loop goes on with a new problem,
  \<^verbatim>\<open>nbClauses\<close>, \<^verbatim>\<open>restart\<close> and \<open>i\<close>.
\<close>

datatype scan_step = Halt Problem | Cont Problem nat bool nat

definition scanClause :: "Problem \<Rightarrow> nat \<Rightarrow> bool \<Rightarrow> nat \<Rightarrow> error + scan_step" where
  "scanClause pb nbClauses restart i =
     ebind (at (Clauses pb) i) (\<lambda>a.
     ebind (deref pb a) (\<lambda>c.
     ebind (scanLits (Model pb) c 0 (length c)) (\<lambda>(c', nbLits, clauseSat).
       let pb1 = pb\<lparr>Store := (Store pb)[a := c']\<rparr> in
       if clauseSat then
         ebind (at (Clauses pb1) (nbClauses - 1)) (\<lambda>b.
           Inr (Cont (pb1\<lparr>Clauses := (Clauses pb1)[i := b]\<rparr>) (nbClauses - 1) restart i))
       else if nbLits = 0 then Inr (Halt (pb1\<lparr>Status := Unsat\<rparr>))
       else if nbLits = 1 then
         ebind (at c' 0) (\<lambda>l.
         ebind (addUnit pb1 l) (\<lambda>pb2.
           if Status pb2 = Unsat then Inr (Halt pb2)
           else
             ebind (at (Clauses pb2) (nbClauses - 1)) (\<lambda>b.
               Inr (Cont (pb2\<lparr>Clauses := (Clauses pb2)[i := b]\<rparr>) (nbClauses - 1) True i))))
       else
         Inr (Cont (if length c' \<noteq> nbLits
                    then pb1\<lparr>Store := (Store pb1)[a := take nbLits c']\<rparr> else pb1)
                nbClauses restart (i + 1)))))"

lemma ebind_Inr_iff: "ebind m f = Inr y \<longleftrightarrow> (\<exists>x. m = Inr x \<and> f x = Inr y)"
  by (cases m) (simp_all add: ebind_def)

lemma ebind_simps [simp]: "ebind (Inl e) f = Inl e" "ebind (Inr x) f = f x"
  by (simp_all add: ebind_def)

lemma scanClause_measure:
  assumes "scanClause pb n r i = Inr (Cont pb' n' r' i')" and "i < n"
  shows "2 * n' - i' < 2 * n - i"
  using assms
  by (auto simp: scanClause_def ebind_Inr_iff Let_def split: if_splits prod.splits)

text \<open>What the loop \<^verbatim>\<open>for i < nbClauses\<close> hands back: the function returned early, or the
  loop ended with the problem, \<^verbatim>\<open>nbClauses\<close> and \<^verbatim>\<open>restart\<close>.\<close>

datatype scan_result = Returned Problem | Scanned Problem nat bool

function scanClauses :: "Problem \<Rightarrow> nat \<Rightarrow> bool \<Rightarrow> nat \<Rightarrow> error + scan_result" where
  "scanClauses pb nbClauses restart i =
     (if i < nbClauses then
        (case scanClause pb nbClauses restart i of
           Inl e \<Rightarrow> Inl e
         | Inr (Halt pb') \<Rightarrow> Inr (Returned pb')
         | Inr (Cont pb' nbClauses' restart' i') \<Rightarrow> scanClauses pb' nbClauses' restart' i')
      else Inr (Scanned pb nbClauses restart))"
  by pat_completeness auto
termination
  by (relation "measure (\<lambda>(pb, nbClauses, restart, i). 2 * nbClauses - i)")
    (auto dest: scanClause_measure)

declare scanLits.simps [simp del] scanClauses.simps [simp del]

lemma scanClause_restart:
  assumes "scanClause pb n r i = Inr (Cont pb' n' r' i')" and "i < n"
  shows "n' \<le> n \<and> (r' \<longrightarrow> r \<or> n' < n)"
  using assms
  by (auto simp: scanClause_def ebind_Inr_iff Let_def split: if_splits prod.splits)

lemma scanClauses_restart:
  "scanClauses pb n r i = Inr (Scanned pb' n' r') \<Longrightarrow> n' \<le> n \<and> (r' \<longrightarrow> r \<or> n' < n)"
proof (induction pb n r i rule: scanClauses.induct)
  case (1 pb n r i)
  show ?case
  proof (cases "i < n")
    case False
    with "1.prems" show ?thesis by (simp add: scanClauses.simps[of pb n r i])
  next
    case True
    from True "1.prems" obtain pb1 n1 r1 i1 where
      step: "scanClause pb n r i = Inr (Cont pb1 n1 r1 i1)" and
      rest: "scanClauses pb1 n1 r1 i1 = Inr (Scanned pb' n' r')"
      by (auto simp: scanClauses.simps[of pb n r i] split: sum.splits scan_step.splits)
    from "1.IH"[OF True step refl rest] scanClause_restart[OF step True]
    show ?thesis by auto
  qed
qed

text \<open>The loop \<^verbatim>\<open>for restart\<close>: a new scan from position 0 as long as the last one
  extracted a unit; \<^verbatim>\<open>updateStatus\<close> after the first scan that extracted none.
  \<^verbatim>\<open>nbClauses\<close> starts as \<^verbatim>\<open>len(pb.Clauses)\<close> and is only decremented, and no scan changes
  the length of \<^verbatim>\<open>pb.Clauses\<close>, so this call of \<^verbatim>\<open>updateStatus\<close> never reads the backing
  array beyond the slice (lemmas \<open>scanClauses_bound\<close> and \<open>updateStatus_within\<close> below):
  the spare part is passed as \<open>[]\<close>.\<close>

function restartLoop :: "Problem \<Rightarrow> nat \<Rightarrow> error + Problem" where
  "restartLoop pb nbClauses =
     (case scanClauses pb nbClauses False 0 of
        Inl e \<Rightarrow> Inl e
      | Inr (Returned pb') \<Rightarrow> Inr pb'
      | Inr (Scanned pb' nbClauses' restart) \<Rightarrow>
          if restart then restartLoop pb' nbClauses'
          else updateStatus pb' [] (int nbClauses'))"
  by pat_completeness auto
termination
  by (relation "measure (\<lambda>(pb, nbClauses). nbClauses)")
    (auto dest: scanClauses_restart)

declare restartLoop.simps [simp del]

definition Simplify2 :: "Problem \<Rightarrow> error + Problem" where
  "Simplify2 pb = restartLoop pb (length (Clauses pb))"

section \<open>The occurrence index\<close>

text \<open>\<^verbatim>\<open>occurs[c.Get(j)] = append(occurs[c.Get(j)], i)\<close> for every literal of the clause at
  position \<open>i\<close>.\<close>

fun occursLits :: "nat list list \<Rightarrow> nat \<Rightarrow> clause \<Rightarrow> error + nat list list" where
  "occursLits occ i [] = Inr occ"
| "occursLits occ i (l # ls) =
     (if l < length occ then occursLits (occ[l := occ ! l @ [i]]) i ls
      else Inl IndexOutOfRange)"

fun occursClauses :: "Problem \<Rightarrow> nat list list \<Rightarrow> nat \<Rightarrow> nat list \<Rightarrow> error + nat list list" where
  "occursClauses pb occ i [] = Inr occ"
| "occursClauses pb occ i (a # as) =
     (case deref pb a of
        Inl e \<Rightarrow> Inl e
      | Inr c \<Rightarrow>
         (case occursLits occ i c of
            Inl e \<Rightarrow> Inl e
          | Inr occ' \<Rightarrow> occursClauses pb occ' (i + 1) as))"

definition buildOccurs :: "Problem \<Rightarrow> error + nat list list" where
  "buildOccurs pb = occursClauses pb (replicate (NbVars pb * 2) []) 0 (Clauses pb)"

section \<open>SelfSub: self-subsuming resolution\<close>

text \<open>
  The state of the loops of \<^verbatim>\<open>SelfSub\<close>: the problem, the local variables \<^verbatim>\<open>occurs\<close>,
  \<^verbatim>\<open>modified\<close> and \<^verbatim>\<open>neverModified\<close>, and the pairs of positions whose clauses were
  tested so far (the code logs each test).
\<close>

record ss_state =
  ss_pb :: Problem
  ss_occurs :: "nat list list"
  ss_modified :: bool
  ss_never :: bool
  ss_tests :: "(nat \<times> nat) list"

text \<open>The loop over \<^verbatim>\<open>pb.Units\<close> that sets \<^verbatim>\<open>unitexists\<close>, and the append that follows.\<close>

definition appendUnitOnce :: "Problem \<Rightarrow> lit \<Rightarrow> Problem" where
  "appendUnitOnce pb l = (if l \<in> set (Units pb) then pb else pb\<lparr>Units := Units pb @ [l]\<rparr>)"

text \<open>
  The block \<^verbatim>\<open>if !newC.Simplify() { switch newC.Len() ... }\<close>, which the three branches of
  \<^verbatim>\<open>SelfSub\<close> repeat word for word: \<open>Stop\<close> is a \<^verbatim>\<open>return\<close> of \<^verbatim>\<open>SelfSub\<close>.
\<close>

datatype resolvent_result = Stop Problem | Go_on Problem

definition addResolvent :: "clause_ops \<Rightarrow> Problem \<Rightarrow> clause \<Rightarrow> error + resolvent_result" where
  "addResolvent ops pb newC0 =
     (case simplify ops newC0 of (isSat, newC) \<Rightarrow>
        if \<not> isSat then
          (if length newC = 0 then Inr (Stop (pb\<lparr>Status := Unsat\<rparr>))
           else if length newC = 1 then
             ebind (at newC 0) (\<lambda>lit2.
             ebind (at (Model pb) (lit_Var lit2)) (\<lambda>m.
               if IsPositive lit2 then
                 (if m = - 1 then Inr (Stop (pb\<lparr>Status := Unsat\<rparr>))
                  else Inr (Go_on (appendUnitOnce
                               (pb\<lparr>Model := (Model pb)[lit_Var lit2 := 1]\<rparr>) lit2)))
               else
                 (if m = 1 then Inr (Stop (pb\<lparr>Status := Unsat\<rparr>))
                  else Inr (Go_on (appendUnitOnce
                               (pb\<lparr>Model := (Model pb)[lit_Var lit2 := - 1]\<rparr>) lit2)))))
           else Inr (Go_on (pb\<lparr>Store := Store pb @ [newC],
                                Clauses := Clauses pb @ [length (Store pb)]\<rparr>)))
        else Inr (Go_on pb))"

text \<open>\<^verbatim>\<open>pb.Clauses[idx] = pb.Clauses[len(pb.Clauses)-1]\<close>, then
  \<^verbatim>\<open>pb.Clauses = pb.Clauses[:len(pb.Clauses)-1]\<close>.\<close>

definition swapRemove :: "Problem \<Rightarrow> nat \<Rightarrow> error + Problem" where
  "swapRemove pb idx =
     (if Clauses pb = [] then Inl IndexOutOfRange
      else if idx < length (Clauses pb)
      then Inr (pb\<lparr>Clauses := butlast ((Clauses pb)[idx := last (Clauses pb)])\<rparr>)
      else Inl IndexOutOfRange)"

datatype pair_result = PReturn Problem | PBreak ss_state | PNext ss_state

text \<open>The rebuild of \<^verbatim>\<open>occurs\<close> after a removal, \<^verbatim>\<open>modified = true\<close>,
  \<^verbatim>\<open>neverModified = false\<close> and \<^verbatim>\<open>break\<close>.\<close>

definition rebuildBreak :: "ss_state \<Rightarrow> Problem \<Rightarrow> error + pair_result" where
  "rebuildBreak st pb =
     ebind (buildOccurs pb) (\<lambda>occ.
       Inr (PBreak (st\<lparr>ss_pb := pb, ss_occurs := occ, ss_modified := True,
                         ss_never := False\<rparr>)))"

text \<open>
  The three branches of the pair test (both directions, only \<^verbatim>\<open>canP\<close>, only \<^verbatim>\<open>canN\<close>)
  repeat the same code and differ in two places only: the operands of \<^verbatim>\<open>Generate\<close> and
  the positions removed by swap-with-last, in that order (\<open>idx1\<close> then \<open>idx2\<close>; \<open>idx2\<close>;
  \<open>idx1\<close>). \<open>resolveBranch\<close> is that code, with the resolvent as generated and the
  positions to remove as parameters.
\<close>

definition resolveBranch ::
    "clause_ops \<Rightarrow> ss_state \<Rightarrow> var \<Rightarrow> clause \<Rightarrow> nat list \<Rightarrow> error + pair_result" where
  "resolveBranch ops st v newC idxs =
     ebind (addResolvent ops (ss_pb st) newC) (\<lambda>r.
       case r of
         Stop pb' \<Rightarrow> Inr (PReturn pb')
       | Go_on pb' \<Rightarrow>
           ebind (at (ss_occurs st) (Negation (var_Lit v))) (\<lambda>negs.
             if length negs > 0 then
               ebind (foldE swapRemove pb' idxs) (\<lambda>pb1. rebuildBreak st pb1)
             else Inr (PNext (st\<lparr>ss_pb := pb', ss_modified := False\<rparr>))))"

text \<open>The body of the loop over \<^verbatim>\<open>idx2\<close>: one pair of clauses, the positive one at
  \<open>idx1\<close> and the negative one at \<open>idx2\<close>.\<close>

definition pairStep :: "clause_ops \<Rightarrow> ss_state \<Rightarrow> var \<Rightarrow> nat \<Rightarrow> nat \<Rightarrow> error + pair_result" where
  "pairStep ops st0 v idx1 idx2 =
     (let pb = ss_pb st0 in
      ebind (at (Clauses pb) idx1) (\<lambda>a1.
      ebind (at (Clauses pb) idx2) (\<lambda>a2.
      ebind (deref pb a1) (\<lambda>c1.
      ebind (deref pb a2) (\<lambda>c2.
        let canP = selfSubsumes ops c1 c2;
            canN = selfSubsumes ops c2 c1;
            st = st0\<lparr>ss_tests := ss_tests st0 @ [(idx1, idx2)]\<rparr>
        in
        if canP \<and> canN then resolveBranch ops st v (generate ops c1 c2 v) [idx1, idx2]
        else if canP then resolveBranch ops st v (generate ops c1 c2 v) [idx2]
        else if canN then resolveBranch ops st v (generate ops c2 c1 v) [idx1]
        else Inr (PNext st))))))"

text \<open>The loop over \<^verbatim>\<open>idx2\<close> (\<^verbatim>\<open>range occurs[lit.Negation()]\<close>).\<close>

fun scanIdx2 :: "clause_ops \<Rightarrow> ss_state \<Rightarrow> var \<Rightarrow> nat \<Rightarrow> nat list \<Rightarrow> error + pair_result" where
  "scanIdx2 ops st v idx1 [] = Inr (PNext st)"
| "scanIdx2 ops st v idx1 (idx2 # rest) =
     (case pairStep ops st v idx1 idx2 of
        Inl e \<Rightarrow> Inl e
      | Inr (PReturn pb) \<Rightarrow> Inr (PReturn pb)
      | Inr (PBreak st') \<Rightarrow> Inr (PBreak st')
      | Inr (PNext st') \<Rightarrow> scanIdx2 ops st' v idx1 rest)"

datatype sweep_result = SReturn Problem | SNext ss_state

text \<open>The loop over \<^verbatim>\<open>idx1\<close> (\<^verbatim>\<open>range occurs[lit]\<close>), with \<^verbatim>\<open>if modified { break }\<close>
  after the inner loop.\<close>

fun scanIdx1 :: "clause_ops \<Rightarrow> ss_state \<Rightarrow> var \<Rightarrow> nat list \<Rightarrow> error + sweep_result" where
  "scanIdx1 ops st v [] = Inr (SNext st)"
| "scanIdx1 ops st v (idx1 # rest) =
     (case at (ss_occurs st) (Negation (var_Lit v)) of
        Inl e \<Rightarrow> Inl e
      | Inr negs \<Rightarrow>
         (case scanIdx2 ops st v idx1 negs of
            Inl e \<Rightarrow> Inl e
          | Inr (PReturn pb) \<Rightarrow> Inr (SReturn pb)
          | Inr (PBreak st') \<Rightarrow>
              if ss_modified st' then Inr (SNext st') else scanIdx1 ops st' v rest
          | Inr (PNext st') \<Rightarrow>
              if ss_modified st' then Inr (SNext st') else scanIdx1 ops st' v rest))"

text \<open>The body of the loop \<^verbatim>\<open>for i := 0; i < pb.NbVars; i++\<close>.\<close>

definition selfSubVar :: "clause_ops \<Rightarrow> ss_state \<Rightarrow> nat \<Rightarrow> error + sweep_result" where
  "selfSubVar ops st i =
     ebind (at (Model (ss_pb st)) i) (\<lambda>m.
       if m \<noteq> 0 then Inr (SNext st)
       else
         let l = var_Lit i in
         ebind (at (ss_occurs st) l) (\<lambda>poss.
         ebind (at (ss_occurs st) (Negation l)) (\<lambda>negs.
           let nbLit = length poss; nbLit2 = length negs in
           if (nbLit < 10 \<or> nbLit2 < 10) \<and> (nbLit \<noteq> 0 \<or> nbLit2 \<noteq> 0)
           then scanIdx1 ops st i poss
           else Inr (SNext st))))"

text \<open>The loop over the variables; \<^verbatim>\<open>pb.NbVars\<close> is never assigned to, so the loop runs
  over the variables \<open>0, ..., NbVars - 1\<close> read when it starts.\<close>

fun varLoop :: "clause_ops \<Rightarrow> ss_state \<Rightarrow> nat list \<Rightarrow> error + sweep_result" where
  "varLoop ops st [] = Inr (SNext st)"
| "varLoop ops st (i # is) =
     (case selfSubVar ops st i of
        Inl e \<Rightarrow> Inl e
      | Inr (SReturn pb) \<Rightarrow> Inr (SReturn pb)
      | Inr (SNext st') \<Rightarrow> varLoop ops st' is)"

text \<open>The loop \<^verbatim>\<open>for modified\<close>: nothing in the code bounds the number of sweeps, so the
  loop is a partial function and \<open>None\<close> stands for a run that never ends.\<close>

partial_function (option) sweepLoop :: "clause_ops \<Rightarrow> ss_state \<Rightarrow> (error + sweep_result) option" where
  "sweepLoop ops st =
     (case varLoop ops (st\<lparr>ss_modified := False\<rparr>) [0..<NbVars (ss_pb st)] of
        Inl e \<Rightarrow> Some (Inl e)
      | Inr (SReturn pb) \<Rightarrow> Some (Inr (SReturn pb))
      | Inr (SNext st') \<Rightarrow>
          if ss_modified st' then sweepLoop ops st' else Some (Inr (SNext st')))"

declare sweepLoop.simps [code]

definition SelfSub :: "clause_ops \<Rightarrow> Problem \<Rightarrow> (error + Problem) option" where
  "SelfSub ops pb =
     (case buildOccurs pb of
        Inl e \<Rightarrow> Some (Inl e)
      | Inr occ \<Rightarrow>
         (case sweepLoop ops \<lparr>ss_pb = pb, ss_occurs = occ, ss_modified = True,
                               ss_never = True, ss_tests = []\<rparr> of
            None \<Rightarrow> None
          | Some (Inl e) \<Rightarrow> Some (Inl e)
          | Some (Inr (SReturn pb')) \<Rightarrow> Some (Inr pb')
          | Some (Inr (SNext st)) \<Rightarrow>
              if \<not> ss_never st then Some (Simplify2 (ss_pb st)) else Some (Inr (ss_pb st))))"

section \<open>Subsumption\<close>

text \<open>The body of the two nested loops over one occurrence list: the clauses at \<open>idx1\<close>
  and \<open>idx2\<close>, and the positions to remove collected so far.\<close>

definition markPair :: "clause_ops \<Rightarrow> Problem \<Rightarrow> nat list \<Rightarrow> nat \<Rightarrow> nat \<Rightarrow> error + nat list" where
  "markPair ops pb toRemove idx1 idx2 =
     ebind (at (Clauses pb) idx1) (\<lambda>a1.
     ebind (at (Clauses pb) idx2) (\<lambda>a2.
       if idx1 \<le> idx2 then Inr toRemove
       else
         ebind (deref pb a1) (\<lambda>c1.
         ebind (deref pb a2) (\<lambda>c2.
           let toRemove1 =
                 (if length c1 > length c2 \<and> subsumes ops c2 c1 then toRemove @ [idx1]
                  else toRemove);
               toRemove2 =
                 (if length c2 > length c1 \<and> subsumes ops c1 c2 then toRemove1 @ [idx2]
                  else toRemove1)
           in Inr toRemove2))))"

definition markList :: "clause_ops \<Rightarrow> Problem \<Rightarrow> nat list \<Rightarrow> nat list \<Rightarrow> error + nat list" where
  "markList ops pb toRemove idxs =
     foldE (\<lambda>t idx1. foldE (\<lambda>t' idx2. markPair ops pb t' idx1 idx2) t idxs) toRemove idxs"

text \<open>The body of the loop over the variables: the positive literal's occurrence list,
  then the negative literal's.\<close>

definition markVar :: "clause_ops \<Rightarrow> Problem \<Rightarrow> nat list list \<Rightarrow> nat list \<Rightarrow> nat \<Rightarrow> error + nat list" where
  "markVar ops pb occ toRemove i =
     ebind (at (Model pb) i) (\<lambda>m.
       if m \<noteq> 0 then Inr toRemove
       else
         let l = var_Lit i in
         ebind (at occ l) (\<lambda>poss.
         ebind (markList ops pb toRemove poss) (\<lambda>toRemove1.
         ebind (at occ (Negation l)) (\<lambda>negs.
           markList ops pb toRemove1 negs))))"

text \<open>The list \<^verbatim>\<open>toRemove\<close> when the loop over the variables ends.\<close>

definition subsumptionMarks :: "clause_ops \<Rightarrow> Problem \<Rightarrow> error + nat list" where
  "subsumptionMarks ops pb =
     ebind (buildOccurs pb) (\<lambda>occ. foldE (markVar ops pb occ) [] [0..<NbVars pb])"

text \<open>\<^verbatim>\<open>newClauses\<close>: the clauses whose position is not in \<^verbatim>\<open>toRemove\<close>, in order.\<close>

definition keepUnmarked :: "nat list \<Rightarrow> nat list \<Rightarrow> nat list" where
  "keepUnmarked cs toRemove =
     map (\<lambda>i. cs ! i) (filter (\<lambda>i. i \<notin> set toRemove) [0..<length cs])"

definition Subsumption :: "clause_ops \<Rightarrow> Problem \<Rightarrow> error + Problem" where
  "Subsumption ops pb =
     ebind (subsumptionMarks ops pb) (\<lambda>toRemove.
       let pb1 = pb\<lparr>Clauses := keepUnmarked (Clauses pb) toRemove\<rparr> in
       ebind (buildOccurs pb1) (\<lambda>occ. Simplify2 pb1))"

section \<open>Preprocess\<close>

definition Preprocess :: "clause_ops \<Rightarrow> Problem \<Rightarrow> (error + Problem) option" where
  "Preprocess ops pb =
     (case SelfSub ops pb of
        None \<Rightarrow> None
      | Some (Inl e) \<Rightarrow> Some (Inl e)
      | Some (Inr pb') \<Rightarrow> Some (Subsumption ops pb'))"

section \<open>Example problems\<close>

text \<open>
  Variable \<open>x\<^sub>k\<close> of the spec's scenarios is variable \<open>k - 1\<close>: the literal \<open>x\<^sub>1\<close> is 0,
  \<open>\<not>x\<^sub>1\<close> is 1, \<open>x\<^sub>2\<close> is 2, \<open>\<not>x\<^sub>2\<close> is 3, and so on. A fresh problem holds the clause
  objects at the addresses \<open>0, 1, ...\<close>, all variables unbound, Status Undetermined.
\<close>

definition freshProblem :: "nat \<Rightarrow> clause list \<Rightarrow> Problem" where
  "freshProblem n cs =
     \<lparr>NbVars = n, Clauses = [0..<length cs], Status = Undetermined, Units = [],
      Model = replicate n 0, Store = cs\<rparr>"

text \<open>Scenario C of the spec: the clauses \<open>x\<^sub>1 \<or> x\<^sub>2\<close> and \<open>\<not>x\<^sub>1 \<or> x\<^sub>2\<close>.\<close>

definition scenarioC :: Problem where
  "scenarioC = freshProblem 2 [[0, 2], [1, 2]]"

section \<open>Lifting a relation over the loops\<close>

lemma at_Inr_iff: "at xs i = Inr x \<longleftrightarrow> i < length xs \<and> x = xs ! i"
  by (auto simp: at_def)

lemma deref_Inr_iff: "deref pb a = Inr c \<longleftrightarrow> a < length (Store pb) \<and> c = Store pb ! a"
  by (auto simp: deref_def)

fun step_pb :: "scan_step \<Rightarrow> Problem" where
  "step_pb (Halt pb) = pb"
| "step_pb (Cont pb n r i) = pb"

fun scan_pb :: "scan_result \<Rightarrow> Problem" where
  "scan_pb (Returned pb) = pb"
| "scan_pb (Scanned pb n r) = pb"

fun resolvent_pb :: "resolvent_result \<Rightarrow> Problem" where
  "resolvent_pb (Stop pb) = pb"
| "resolvent_pb (Go_on pb) = pb"

fun pair_pb :: "pair_result \<Rightarrow> Problem" where
  "pair_pb (PReturn pb) = pb"
| "pair_pb (PBreak st) = ss_pb st"
| "pair_pb (PNext st) = ss_pb st"

fun sweep_pb :: "sweep_result \<Rightarrow> Problem" where
  "sweep_pb (SReturn pb) = pb"
| "sweep_pb (SNext st) = ss_pb st"

lemma scanClauses_lift:
  assumes refl: "reflp R" and trans: "transp R"
    and step: "\<And>pb n r i s. scanClause pb n r i = Inr s \<Longrightarrow> R pb (step_pb s)"
  shows "scanClauses pb n r i = Inr res \<Longrightarrow> R pb (scan_pb res)"
proof (induction pb n r i rule: scanClauses.induct)
  case (1 pb n r i)
  show ?case
  proof (cases "i < n")
    case False
    with "1.prems" show ?thesis by (auto simp: scanClauses.simps[of pb n r i] reflpD[OF refl])
  next
    case True
    show ?thesis
    proof (cases "scanClause pb n r i")
      case (Inl e)
      with True "1.prems" show ?thesis by (simp add: scanClauses.simps[of pb n r i])
    next
      case (Inr s)
      show ?thesis
      proof (cases s)
        case (Halt pb1)
        with Inr True "1.prems" step[OF Inr] show ?thesis
          by (auto simp: scanClauses.simps[of pb n r i])
      next
        case (Cont pb1 n1 r1 i1)
        with Inr True "1.prems" have rest: "scanClauses pb1 n1 r1 i1 = Inr res"
          by (simp add: scanClauses.simps[of pb n r i])
        from "1.IH"[OF True Inr Cont rest] step[OF Inr] Cont show ?thesis
          by (auto intro: transpD[OF trans])
      qed
    qed
  qed
qed

definition pair_steps :: "(Problem \<Rightarrow> Problem \<Rightarrow> bool) \<Rightarrow> clause_ops \<Rightarrow> bool" where
  "pair_steps R ops \<longleftrightarrow>
     (\<forall>st v i1 i2 r. pairStep ops st v i1 i2 = Inr r \<longrightarrow> R (ss_pb st) (pair_pb r))"

lemma scanIdx2_lift:
  assumes trans: "transp R" and step: "pair_steps R ops"
  shows "R (ss_pb st0) (ss_pb st) \<Longrightarrow> scanIdx2 ops st v idx1 idxs = Inr r
    \<Longrightarrow> R (ss_pb st0) (pair_pb r)"
proof (induction idxs arbitrary: st)
  case Nil
  then show ?case by auto
next
  case (Cons idx2 rest)
  from Cons.prems(2) obtain r1 where r1: "pairStep ops st v idx1 idx2 = Inr r1"
    by (cases "pairStep ops st v idx1 idx2") auto
  from step r1 have "R (ss_pb st) (pair_pb r1)" by (auto simp: pair_steps_def)
  with Cons.prems(1) have R1: "R (ss_pb st0) (pair_pb r1)" by (rule transpD[OF trans])
  show ?case
  proof (cases r1)
    case (PNext st')
    with r1 Cons.prems(2) have "scanIdx2 ops st' v idx1 rest = Inr r" by simp
    from Cons.IH[OF _ this] R1 PNext show ?thesis by simp
  qed (use r1 Cons.prems(2) R1 in auto)
qed

lemma scanIdx1_lift:
  assumes trans: "transp R" and step: "pair_steps R ops"
  shows "R (ss_pb st0) (ss_pb st) \<Longrightarrow> scanIdx1 ops st v idxs = Inr r
    \<Longrightarrow> R (ss_pb st0) (sweep_pb r)"
proof (induction idxs arbitrary: st)
  case Nil
  then show ?case by auto
next
  case (Cons idx1 rest)
  from Cons.prems(2) obtain negs r1 where
    negs: "at (ss_occurs st) (Negation (var_Lit v)) = Inr negs" and
    r1: "scanIdx2 ops st v idx1 negs = Inr r1"
    by (auto split: sum.splits)
  from scanIdx2_lift[OF trans step Cons.prems(1) r1]
  have R1: "R (ss_pb st0) (pair_pb r1)" .
  show ?case
  proof (cases r1)
    case (PReturn pb)
    with negs r1 Cons.prems(2) R1 show ?thesis by auto
  next
    case (PBreak st')
    with negs r1 Cons.prems(2) R1 Cons.IH[of st'] show ?thesis
      by (auto split: if_splits)
  next
    case (PNext st')
    with negs r1 Cons.prems(2) R1 Cons.IH[of st'] show ?thesis
      by (auto split: if_splits)
  qed
qed

lemma selfSubVar_lift:
  assumes refl: "reflp R" and trans: "transp R" and step: "pair_steps R ops"
  shows "selfSubVar ops st i = Inr r \<Longrightarrow> R (ss_pb st) (sweep_pb r)"
  using scanIdx1_lift[OF trans step reflpD[OF refl], of st i _ r] reflpD[OF refl]
  by (auto simp: selfSubVar_def ebind_Inr_iff Let_def split: if_splits)

lemma varLoop_lift:
  assumes refl: "reflp R" and trans: "transp R" and step: "pair_steps R ops"
  shows "varLoop ops st vs = Inr r \<Longrightarrow> R (ss_pb st) (sweep_pb r)"
proof (induction vs arbitrary: st)
  case Nil
  then show ?case by (auto simp: reflpD[OF refl])
next
  case (Cons i vs)
  from Cons.prems obtain r1 where r1: "selfSubVar ops st i = Inr r1"
    by (auto split: sum.splits)
  from selfSubVar_lift[OF refl trans step r1] have R1: "R (ss_pb st) (sweep_pb r1)" .
  show ?case
  proof (cases r1)
    case (SReturn pb)
    with r1 Cons.prems R1 show ?thesis by auto
  next
    case (SNext st')
    with r1 Cons.prems have "varLoop ops st' vs = Inr r" by simp
    from Cons.IH[OF this] R1 SNext show ?thesis by (auto intro: transpD[OF trans])
  qed
qed

lemma sweepLoop_lift_aux:
  assumes run: "sweepLoop ops st = Some y"
  shows "reflp R \<longrightarrow> transp R \<longrightarrow> pair_steps R ops
     \<longrightarrow> (\<forall>r. y = Inr r \<longrightarrow> R (ss_pb st) (sweep_pb r))"
proof (rule sweepLoop.raw_induct[where P = "\<lambda>ops st y. reflp R \<longrightarrow> transp R \<longrightarrow> pair_steps R ops
     \<longrightarrow> (\<forall>r. y = Inr r \<longrightarrow> R (ss_pb st) (sweep_pb r))", OF _ run])
  fix sl ops st y
  assume IH: "\<And>ops st y. sl ops st = Some y \<Longrightarrow> reflp R \<longrightarrow> transp R \<longrightarrow> pair_steps R ops
     \<longrightarrow> (\<forall>r. y = Inr r \<longrightarrow> R (ss_pb st) (sweep_pb r))"
    and eq: "(case varLoop ops (st\<lparr>ss_modified := False\<rparr>) [0..<NbVars (ss_pb st)] of
        Inl e \<Rightarrow> Some (Inl e)
      | Inr (SReturn pb) \<Rightarrow> Some (Inr (SReturn pb))
      | Inr (SNext st') \<Rightarrow>
          if ss_modified st' then sl ops st' else Some (Inr (SNext st'))) = Some y"
  show "reflp R \<longrightarrow> transp R \<longrightarrow> pair_steps R ops
     \<longrightarrow> (\<forall>r. y = Inr r \<longrightarrow> R (ss_pb st) (sweep_pb r))"
  proof (intro allI impI)
    fix r assume refl: "reflp R" and trans: "transp R" and step: "pair_steps R ops"
      and y: "y = Inr r"
    from eq y obtain r1 where
      r1: "varLoop ops (st\<lparr>ss_modified := False\<rparr>) [0..<NbVars (ss_pb st)] = Inr r1"
      by (auto split: sum.splits)
    from varLoop_lift[OF refl trans step r1]
    have R1: "R (ss_pb st) (sweep_pb r1)" by simp
    show "R (ss_pb st) (sweep_pb r)"
    proof (cases r1)
      case (SReturn pb)
      with r1 eq y R1 show ?thesis by auto
    next
      case (SNext st')
      show ?thesis
      proof (cases "ss_modified st'")
        case True
        with SNext r1 eq y have "sl ops st' = Some (Inr r)" by simp
        from IH[OF this] refl trans step have "R (ss_pb st') (sweep_pb r)" by blast
        with R1 SNext show ?thesis by (auto intro: transpD[OF trans])
      next
        case False
        with SNext r1 eq y R1 show ?thesis by auto
      qed
    qed
  qed
qed

lemma sweepLoop_lift:
  assumes "reflp R" and "transp R" and "pair_steps R ops"
    and "sweepLoop ops st = Some (Inr r)"
  shows "R (ss_pb st) (sweep_pb r)"
  using sweepLoop_lift_aux[OF assms(4), of R] assms(1-3) by blast

section \<open>Status along the passes\<close>

definition status_kept :: "Problem \<Rightarrow> Problem \<Rightarrow> bool" where
  "status_kept pb pb' \<longleftrightarrow> Status pb' = Status pb \<or> Status pb' = Unsat"

definition status_mono :: "Problem \<Rightarrow> Problem \<Rightarrow> bool" where
  "status_mono pb pb' \<longleftrightarrow>
     status_kept pb pb' \<or> (Status pb = Undetermined \<and> Status pb' = Sat \<and> Clauses pb' = [])"

lemma status_kept_reflp: "reflp status_kept"
  by (simp add: reflp_def status_kept_def)

lemma status_kept_transp: "transp status_kept"
  by (auto simp: transp_def status_kept_def)

lemma addUnit_status: "addUnit pb l = Inr pb' \<Longrightarrow> status_kept pb pb'"
  by (auto simp: addUnit_def ebind_Inr_iff status_kept_def split: if_splits)

lemma updateStatus_status: "updateStatus pb spare n = Inr pb' \<Longrightarrow> status_mono pb pb'"
  by (auto simp: updateStatus_def status_mono_def status_kept_def Let_def split: if_splits)

text \<open>A call that does not lengthen the slice does not depend on the backing array beyond
  it, and the calls made by \<^verbatim>\<open>Simplify2\<close> are such calls.\<close>

lemma updateStatus_within:
  "n \<le> int (length (Clauses pb)) \<Longrightarrow> updateStatus pb spare n = updateStatus pb [] n"
  by (auto simp: updateStatus_def Let_def)

lemma scanClause_Halt_Unsat: "scanClause pb n r i = Inr (Halt pb') \<Longrightarrow> Status pb' = Unsat"
  by (auto simp: scanClause_def ebind_Inr_iff Let_def split: if_splits prod.splits)

lemma scanClause_status: "scanClause pb n r i = Inr s \<Longrightarrow> status_kept pb (step_pb s)"
  by (cases s)
    (auto simp: scanClause_def ebind_Inr_iff Let_def status_kept_def
      dest!: addUnit_status split: if_splits prod.splits)

lemma scanClauses_status: "scanClauses pb n r i = Inr res \<Longrightarrow> status_kept pb (scan_pb res)"
  by (rule scanClauses_lift[OF status_kept_reflp status_kept_transp scanClause_status])

lemma scanClauses_Returned_Unsat:
  "scanClauses pb n r i = Inr (Returned pb') \<Longrightarrow> Status pb' = Unsat"
proof (induction pb n r i rule: scanClauses.induct)
  case (1 pb n r i)
  then show ?case
    by (auto simp: scanClauses.simps[of pb n r i] dest: scanClause_Halt_Unsat
        split: if_splits sum.splits scan_step.splits)
qed

lemma status_kept_mono: "status_kept a b \<Longrightarrow> status_mono b c \<Longrightarrow> status_mono a c"
  by (auto simp: status_mono_def status_kept_def)

lemma restartLoop_status: "restartLoop pb n = Inr pb' \<Longrightarrow> status_mono pb pb'"
proof (induction pb n rule: restartLoop.induct)
  case (1 pb n)
  from "1.prems" obtain res where res: "scanClauses pb n False 0 = Inr res"
    by (auto simp: restartLoop.simps[of pb n] split: sum.splits)
  note k = scanClauses_status[OF res]
  show ?case
  proof (cases res)
    case (Returned pb1)
    with res "1.prems" k show ?thesis
      by (auto simp: restartLoop.simps[of pb n] status_mono_def)
  next
    case (Scanned pb1 n1 r1)
    show ?thesis
    proof (cases r1)
      case True
      with Scanned res "1.prems" have "restartLoop pb1 n1 = Inr pb'"
        by (simp add: restartLoop.simps[of pb n])
      from "1.IH"[OF res Scanned True this] k Scanned show ?thesis
        by (auto intro: status_kept_mono)
    next
      case False
      with Scanned res "1.prems" have "updateStatus pb1 [] (int n1) = Inr pb'"
        by (simp add: restartLoop.simps[of pb n])
      from updateStatus_status[OF this] k Scanned show ?thesis
        by (auto intro: status_kept_mono)
    qed
  qed
qed

lemma Simplify2_status: "Simplify2 pb = Inr pb' \<Longrightarrow> status_mono pb pb'"
  unfolding Simplify2_def by (rule restartLoop_status)

lemma addResolvent_status:
  "addResolvent ops pb c = Inr r \<Longrightarrow> status_kept pb (resolvent_pb r)"
  by (cases r)
    (auto simp: addResolvent_def ebind_Inr_iff status_kept_def appendUnitOnce_def
      split: prod.splits if_splits)

lemma swapRemove_Status: "swapRemove pb idx = Inr pb' \<Longrightarrow> Status pb' = Status pb"
  by (auto simp: swapRemove_def split: if_splits)

lemma rebuildBreak_pb: "rebuildBreak st pb = Inr r \<Longrightarrow> pair_pb r = pb"
  by (auto simp: rebuildBreak_def ebind_Inr_iff)

lemma resolveBranch_cases:
  assumes "resolveBranch ops st v c idxs = Inr r"
  obtains
    (stop) pb' where "addResolvent ops (ss_pb st) c = Inr (Stop pb')" "r = PReturn pb'"
  | (removed) pb' negs pb1 occ where
      "addResolvent ops (ss_pb st) c = Inr (Go_on pb')"
      "at (ss_occurs st) (Negation (var_Lit v)) = Inr negs" "negs \<noteq> []"
      "foldE swapRemove pb' idxs = Inr pb1" "buildOccurs pb1 = Inr occ"
      "r = PBreak (st\<lparr>ss_pb := pb1, ss_occurs := occ, ss_modified := True, ss_never := False\<rparr>)"
  | (kept) pb' where
      "addResolvent ops (ss_pb st) c = Inr (Go_on pb')"
      "at (ss_occurs st) (Negation (var_Lit v)) = Inr []"
      "r = PNext (st\<lparr>ss_pb := pb', ss_modified := False\<rparr>)"
proof -
  from assms obtain rr where rr: "addResolvent ops (ss_pb st) c = Inr rr"
    by (auto simp: resolveBranch_def ebind_Inr_iff)
  show thesis
  proof (cases rr)
    case (Stop pb')
    with rr assms show ?thesis by (intro stop[of pb']) (auto simp: resolveBranch_def)
  next
    case (Go_on pb')
    with rr assms obtain negs where
      negs: "at (ss_occurs st) (Negation (var_Lit v)) = Inr negs"
      by (auto simp: resolveBranch_def ebind_Inr_iff)
    show ?thesis
    proof (cases "negs = []")
      case True
      with Go_on rr negs assms show ?thesis
        by (intro kept[of pb']) (auto simp: resolveBranch_def)
    next
      case False
      with Go_on rr negs assms obtain pb1 occ where
        "foldE swapRemove pb' idxs = Inr pb1" "buildOccurs pb1 = Inr occ"
        "r = PBreak (st\<lparr>ss_pb := pb1, ss_occurs := occ, ss_modified := True, ss_never := False\<rparr>)"
        by (auto simp: resolveBranch_def ebind_Inr_iff rebuildBreak_def)
      with Go_on rr negs False show ?thesis by (intro removed[of pb' negs pb1 occ]) auto
    qed
  qed
qed

lemma pairStep_cases:
  assumes "pairStep ops st v i1 i2 = Inr r"
  obtains
    (none) c1 c2 where
      "at (Clauses (ss_pb st)) i1 = Inr (Clauses (ss_pb st) ! i1)"
      "at (Clauses (ss_pb st)) i2 = Inr (Clauses (ss_pb st) ! i2)"
      "deref (ss_pb st) (Clauses (ss_pb st) ! i1) = Inr c1"
      "deref (ss_pb st) (Clauses (ss_pb st) ! i2) = Inr c2"
      "\<not> selfSubsumes ops c1 c2" "\<not> selfSubsumes ops c2 c1"
      "r = PNext (st\<lparr>ss_tests := ss_tests st @ [(i1, i2)]\<rparr>)"
  | (branch) c1 c2 c idxs where
      "at (Clauses (ss_pb st)) i1 = Inr (Clauses (ss_pb st) ! i1)"
      "at (Clauses (ss_pb st)) i2 = Inr (Clauses (ss_pb st) ! i2)"
      "deref (ss_pb st) (Clauses (ss_pb st) ! i1) = Inr c1"
      "deref (ss_pb st) (Clauses (ss_pb st) ! i2) = Inr c2"
      "selfSubsumes ops c1 c2 \<and> selfSubsumes ops c2 c1 \<and> c = generate ops c1 c2 v \<and> idxs = [i1, i2]
       \<or> selfSubsumes ops c1 c2 \<and> \<not> selfSubsumes ops c2 c1 \<and> c = generate ops c1 c2 v \<and> idxs = [i2]
       \<or> \<not> selfSubsumes ops c1 c2 \<and> selfSubsumes ops c2 c1 \<and> c = generate ops c2 c1 v \<and> idxs = [i1]"
      "resolveBranch ops (st\<lparr>ss_tests := ss_tests st @ [(i1, i2)]\<rparr>) v c idxs = Inr r"
proof -
  from assms obtain c1 c2 where
    a: "at (Clauses (ss_pb st)) i1 = Inr (Clauses (ss_pb st) ! i1)"
      "at (Clauses (ss_pb st)) i2 = Inr (Clauses (ss_pb st) ! i2)"
      "deref (ss_pb st) (Clauses (ss_pb st) ! i1) = Inr c1"
      "deref (ss_pb st) (Clauses (ss_pb st) ! i2) = Inr c2"
    by (auto simp: pairStep_def ebind_Inr_iff Let_def at_Inr_iff)
  show thesis
  proof (cases "selfSubsumes ops c1 c2 \<or> selfSubsumes ops c2 c1")
    case False
    with a assms show ?thesis
      by (intro none[of c1 c2]) (auto simp: pairStep_def Let_def)
  next
    case True
    define c where "c = (if selfSubsumes ops c1 c2 then generate ops c1 c2 v else generate ops c2 c1 v)"
    define idxs where "idxs = (if selfSubsumes ops c1 c2 \<and> selfSubsumes ops c2 c1 then [i1, i2]
       else if selfSubsumes ops c1 c2 then [i2] else [i1])"
    from True a assms
    have "resolveBranch ops (st\<lparr>ss_tests := ss_tests st @ [(i1, i2)]\<rparr>) v c idxs = Inr r"
      by (auto simp: pairStep_def Let_def c_def idxs_def split: if_splits)
    with a True show ?thesis
      by (intro branch[of c1 c2 c idxs]) (auto simp: c_def idxs_def)
  qed
qed

lemma foldE_swapRemove_Status:
  "foldE swapRemove pb idxs = Inr pb' \<Longrightarrow> Status pb' = Status pb"
  by (induction idxs arbitrary: pb) (auto split: sum.splits dest: swapRemove_Status)

lemma resolveBranch_status:
  assumes "resolveBranch ops st v c idxs = Inr r"
  shows "status_kept (ss_pb st) (pair_pb r)"
  using assms
proof (cases rule: resolveBranch_cases)
  case (stop pb')
  with addResolvent_status[OF stop(1)] show ?thesis by simp
next
  case (removed pb' negs pb1 occ)
  with addResolvent_status[OF removed(1)] foldE_swapRemove_Status[OF removed(4)]
  show ?thesis by (simp add: status_kept_def)
next
  case (kept pb')
  with addResolvent_status[OF kept(1)] show ?thesis by simp
qed

lemma pairStep_status: "pair_steps status_kept ops"
  unfolding pair_steps_def
proof (intro allI impI)
  fix st v i1 i2 r
  assume "pairStep ops st v i1 i2 = Inr r"
  then show "status_kept (ss_pb st) (pair_pb r)"
  proof (cases rule: pairStep_cases)
    case (none c1 c2)
    then show ?thesis by (simp add: status_kept_def)
  next
    case (branch c1 c2 c idxs)
    from resolveBranch_status[OF branch(6)] show ?thesis by simp
  qed
qed

lemma sweepLoop_status:
  "sweepLoop ops st = Some (Inr r) \<Longrightarrow> status_kept (ss_pb st) (sweep_pb r)"
  by (rule sweepLoop_lift[OF status_kept_reflp status_kept_transp pairStep_status])

lemma SelfSub_cases:
  assumes "SelfSub ops pb = Some (Inr pb')"
  obtains
    (returned) occ where "buildOccurs pb = Inr occ"
      "sweepLoop ops \<lparr>ss_pb = pb, ss_occurs = occ, ss_modified = True,
                               ss_never = True, ss_tests = []\<rparr> = Some (Inr (SReturn pb'))"
  | (untouched) occ st where "buildOccurs pb = Inr occ"
      "sweepLoop ops \<lparr>ss_pb = pb, ss_occurs = occ, ss_modified = True,
                               ss_never = True, ss_tests = []\<rparr> = Some (Inr (SNext st))"
      "ss_never st" "pb' = ss_pb st"
  | (propagated) occ st where "buildOccurs pb = Inr occ"
      "sweepLoop ops \<lparr>ss_pb = pb, ss_occurs = occ, ss_modified = True,
                               ss_never = True, ss_tests = []\<rparr> = Some (Inr (SNext st))"
      "\<not> ss_never st" "Simplify2 (ss_pb st) = Inr pb'"
proof -
  from assms obtain occ where occ: "buildOccurs pb = Inr occ"
    by (auto simp: SelfSub_def split: sum.splits)
  with assms obtain r where
    r: "sweepLoop ops \<lparr>ss_pb = pb, ss_occurs = occ, ss_modified = True,
                               ss_never = True, ss_tests = []\<rparr> = Some (Inr r)"
    by (auto simp: SelfSub_def split: sum.splits option.splits)
  show thesis
  proof (cases r)
    case (SReturn pb1)
    with occ r assms show ?thesis by (intro returned[of occ]) (auto simp: SelfSub_def)
  next
    case (SNext st)
    with occ r assms show ?thesis
      by (cases "ss_never st")
        (auto simp: SelfSub_def intro: untouched[of occ st] propagated[of occ st])
  qed
qed

lemma SelfSub_status:
  assumes "SelfSub ops pb = Some (Inr pb')"
  shows "status_mono pb pb'"
  using assms
proof (cases rule: SelfSub_cases)
  case (returned occ)
  from sweepLoop_status[OF returned(2)] show ?thesis by (simp add: status_mono_def)
next
  case (untouched occ st)
  from sweepLoop_status[OF untouched(2)] untouched(4) show ?thesis
    by (simp add: status_mono_def)
next
  case (propagated occ st)
  from sweepLoop_status[OF propagated(2)] Simplify2_status[OF propagated(4)]
  show ?thesis by (auto intro: status_kept_mono)
qed

lemma Subsumption_status:
  assumes "Subsumption ops pb = Inr pb'"
  shows "status_mono pb pb'"
proof -
  from assms obtain t where
    "Simplify2 (pb\<lparr>Clauses := keepUnmarked (Clauses pb) t\<rparr>) = Inr pb'"
    by (auto simp: Subsumption_def ebind_Inr_iff Let_def)
  from Simplify2_status[OF this] show ?thesis
    by (simp add: status_mono_def status_kept_def)
qed


lemma addUnit_Clauses: "addUnit pb l = Inr pb' \<Longrightarrow> Clauses pb' = Clauses pb"
  by (auto simp: addUnit_def ebind_Inr_iff split: if_splits)

lemma scanClause_length:
  "scanClause pb n r i = Inr s \<Longrightarrow> length (Clauses (step_pb s)) = length (Clauses pb)"
  by (cases s)
    (auto simp: scanClause_def ebind_Inr_iff Let_def dest!: addUnit_Clauses
      split: if_splits prod.splits)

lemma scanClauses_length:
  "scanClauses pb n r i = Inr res \<Longrightarrow> length (Clauses (scan_pb res)) = length (Clauses pb)"
  by (rule scanClauses_lift[where R = "\<lambda>a b. length (Clauses b) = length (Clauses a)"])
    (auto simp: reflp_def transp_def dest: scanClause_length)

lemma scanClauses_bound:
  assumes "scanClauses pb n r i = Inr (Scanned pb' n' r')" and "n \<le> length (Clauses pb)"
  shows "n' \<le> length (Clauses pb')"
  using scanClauses_restart[OF assms(1)] scanClauses_length[OF assms(1)] assms(2) by simp

lemma restartLoop_length:
  "restartLoop pb n = Inr pb' \<Longrightarrow> length (Clauses pb') \<le> length (Clauses pb)"
proof (induction pb n rule: restartLoop.induct)
  case (1 pb n)
  from "1.prems" obtain res where res: "scanClauses pb n False 0 = Inr res"
    by (auto simp: restartLoop.simps[of pb n] split: sum.splits)
  note k = scanClauses_length[OF res]
  show ?case
  proof (cases res)
    case (Returned pb1)
    with res "1.prems" k show ?thesis
      by (auto simp: restartLoop.simps[of pb n])
  next
    case (Scanned pb1 n1 r1)
    show ?thesis
    proof (cases r1)
      case True
      with Scanned res "1.prems" have "restartLoop pb1 n1 = Inr pb'"
        by (simp add: restartLoop.simps[of pb n])
      from "1.IH"[OF res Scanned True this] k Scanned show ?thesis by simp
    next
      case False
      with Scanned res "1.prems" have "updateStatus pb1 [] (int n1) = Inr pb'"
        by (simp add: restartLoop.simps[of pb n])
      with k Scanned show ?thesis
        by (auto simp: updateStatus_def Let_def split: if_splits)
    qed
  qed
qed

lemma Subsumption_length:
  assumes "Subsumption ops pb = Inr pb'"
  shows "length (Clauses pb') \<le> length (Clauses pb)"
proof -
  from assms obtain t where
    "Simplify2 (pb\<lparr>Clauses := keepUnmarked (Clauses pb) t\<rparr>) = Inr pb'"
    by (auto simp: Subsumption_def ebind_Inr_iff Let_def)
  from restartLoop_length[OF this[unfolded Simplify2_def]]
  have "length (Clauses pb') \<le> length (keepUnmarked (Clauses pb) t)" by simp
  also have "\<dots> \<le> length (Clauses pb)"
    using length_filter_le[of "\<lambda>i. i \<notin> set t" "[0..<length (Clauses pb)]"]
    by (simp add: keepUnmarked_def)
  finally show ?thesis .
qed

definition status_monotone :: "Problem \<Rightarrow> Problem \<Rightarrow> bool" where
  "status_monotone pb pb' \<longleftrightarrow>
     (Status pb = Unsat \<longrightarrow> Status pb' = Unsat) \<and>
     (Status pb = Undetermined \<and> Status pb' = Sat \<longrightarrow> Clauses pb' = [])"

lemma status_mono_monotone: "status_mono pb pb' \<Longrightarrow> status_monotone pb pb'"
  by (auto simp: status_mono_def status_kept_def status_monotone_def)

lemma Preprocess_cases:
  assumes "Preprocess ops pb = Some (Inr pb')"
  obtains pb1 where "SelfSub ops pb = Some (Inr pb1)" "Subsumption ops pb1 = Inr pb'"
  using assms by (auto simp: Preprocess_def split: option.splits sum.splits)

lemma Preprocess_status:
  assumes "Preprocess ops pb = Some (Inr pb')"
  shows "status_monotone pb pb'"
  using assms
proof (cases rule: Preprocess_cases)
  case (1 pb1)
  from SelfSub_status[OF 1(1)] Subsumption_status[OF 1(2)] Subsumption_length[OF 1(2)]
  show ?thesis
    by (auto simp: status_mono_def status_kept_def status_monotone_def)
qed

section \<open>What a completed propagation leaves\<close>

definition unbound :: "int list \<Rightarrow> lit \<Rightarrow> bool" where
  "unbound m l \<longleftrightarrow> lit_Var l < length m \<and> m ! lit_Var l = 0"

definition normalized :: "Problem \<Rightarrow> nat \<Rightarrow> bool" where
  "normalized pb a \<longleftrightarrow>
     a < length (Store pb) \<and> 2 \<le> length (Store pb ! a) \<and>
     (\<forall>l\<in>set (Store pb ! a). unbound (Model pb) l)"

lemma scanLits_post:
  "scanLits m c j n = Inr (c', n', sat) \<Longrightarrow> j \<le> n \<Longrightarrow> n \<le> length c
   \<Longrightarrow> (\<forall>k<j. unbound m (c ! k))
   \<Longrightarrow> length c' = length c \<and> n' \<le> n \<and> (\<not> sat \<longrightarrow> (\<forall>k<n'. unbound m (c' ! k)))"
proof (induction m c j n rule: scanLits.induct)
  case (1 m c j n)
  show ?case
  proof (cases "j < n")
    case False
    with "1.prems" show ?thesis by (auto simp: scanLits.simps[of m c j n])
  next
    case True
    with "1.prems"(3) have at_j: "at c j = Inr (c ! j)" by (simp add: at_def)
    from True "1.prems"(1) at_j obtain x where x: "at m (lit_Var (c ! j)) = Inr x"
      by (auto simp: scanLits.simps[of m c j n] split: sum.splits)
    show ?thesis
    proof (cases "x = 0")
      case zero: True
      with True at_j x "1.prems"(1) have run: "scanLits m c (j + 1) n = Inr (c', n', sat)"
        by (simp add: scanLits.simps[of m c j n])
      from x zero have "unbound m (c ! j)" by (simp add: unbound_def at_Inr_iff)
      with "1.prems"(4) have "\<forall>k<j + 1. unbound m (c ! k)"
        by (auto simp: less_Suc_eq)
      with "1.IH"(1)[OF True at_j x zero run] True "1.prems"(3) show ?thesis by simp
    next
      case nz: False
      show ?thesis
      proof (cases "(x = 1) = IsPositive (c ! j)")
        case True
        with \<open>j < n\<close> at_j x nz "1.prems" show ?thesis
          by (auto simp: scanLits.simps[of m c j n])
      next
        case False
        from \<open>j < n\<close> "1.prems"(3) have at_n: "at c (n - 1) = Inr (c ! (n - 1))"
          by (simp add: at_def)
        with \<open>j < n\<close> at_j x nz False "1.prems"(1)
        have run: "scanLits m (c[j := c ! (n - 1)]) j (n - 1) = Inr (c', n', sat)"
          by (simp add: scanLits.simps[of m c j n])
        from "1.prems"(4) have u: "\<forall>k<j. unbound m (c[j := c ! (n - 1)] ! k)" by simp
        from \<open>j < n\<close> "1.prems"(3)
        have le: "j \<le> n - 1" "n - 1 \<le> length (c[j := c ! (n - 1)])" by simp_all
        from "1.IH"(2)[OF \<open>j < n\<close> at_j x nz False at_n run le u]
        show ?thesis by auto
      qed
    qed
  qed
qed

lemma scanLits_unbound:
  "(\<forall>k. j \<le> k \<and> k < n \<longrightarrow> unbound m (c ! k)) \<Longrightarrow> n \<le> length c
   \<Longrightarrow> scanLits m c j n = Inr (c, n, False)"
proof (induction m c j n rule: scanLits.induct)
  case (1 m c j n)
  show ?case
  proof (cases "j < n")
    case False
    then show ?thesis by (simp add: scanLits.simps[of m c j n])
  next
    case True
    with "1.prems" have at_j: "at c j = Inr (c ! j)" and x: "at m (lit_Var (c ! j)) = Inr 0"
      by (auto simp: at_def unbound_def)
    from "1.IH"(1)[OF True at_j x] "1.prems" have "scanLits m c (j + 1) n = Inr (c, n, False)"
      by simp
    with True at_j x show ?thesis by (simp add: scanLits.simps[of m c j n])
  qed
qed

lemma scanClause_cases:
  assumes "scanClause pb n r i = Inr s"
  obtains
    (satisfied) c' nbLits where
      "i < length (Clauses pb)" "Clauses pb ! i < length (Store pb)"
      "scanLits (Model pb) (Store pb ! (Clauses pb ! i)) 0
         (length (Store pb ! (Clauses pb ! i))) = Inr (c', nbLits, True)"
      "n - 1 < length (Clauses pb)"
      "s = Cont (pb\<lparr>Store := (Store pb)[Clauses pb ! i := c'],
                     Clauses := (Clauses pb)[i := Clauses pb ! (n - 1)]\<rparr>) (n - 1) r i"
  | (empty) c' where
      "i < length (Clauses pb)" "Clauses pb ! i < length (Store pb)"
      "scanLits (Model pb) (Store pb ! (Clauses pb ! i)) 0
         (length (Store pb ! (Clauses pb ! i))) = Inr (c', 0, False)"
      "s = Halt (pb\<lparr>Store := (Store pb)[Clauses pb ! i := c'], Status := Unsat\<rparr>)"
  | (unit) c' pb2 where
      "i < length (Clauses pb)" "Clauses pb ! i < length (Store pb)"
      "scanLits (Model pb) (Store pb ! (Clauses pb ! i)) 0
         (length (Store pb ! (Clauses pb ! i))) = Inr (c', 1, False)"
      "0 < length c'"
      "addUnit (pb\<lparr>Store := (Store pb)[Clauses pb ! i := c']\<rparr>) (c' ! 0) = Inr pb2"
      "Status pb2 = Unsat \<and> s = Halt pb2
       \<or> Status pb2 \<noteq> Unsat \<and> n - 1 < length (Clauses pb2)
         \<and> s = Cont (pb2\<lparr>Clauses := (Clauses pb2)[i := Clauses pb2 ! (n - 1)]\<rparr>) (n - 1) True i"
  | (kept) c' nbLits where
      "i < length (Clauses pb)" "Clauses pb ! i < length (Store pb)"
      "scanLits (Model pb) (Store pb ! (Clauses pb ! i)) 0
         (length (Store pb ! (Clauses pb ! i))) = Inr (c', nbLits, False)"
      "2 \<le> nbLits"
      "s = Cont (pb\<lparr>Store := (Store pb)[Clauses pb ! i := take nbLits c']\<rparr>) n r (i + 1)"
proof -
  define a where "a = Clauses pb ! i"
  from assms obtain c' nbLits sat where
    b: "i < length (Clauses pb)" "a < length (Store pb)"
      "scanLits (Model pb) (Store pb ! a) 0 (length (Store pb ! a)) = Inr (c', nbLits, sat)"
    by (auto simp: scanClause_def ebind_Inr_iff at_Inr_iff deref_Inr_iff a_def)
  then have b': "at (Clauses pb) i = Inr a" "deref pb a = Inr (Store pb ! a)"
    by (auto simp: at_def deref_def a_def)
  note unf = scanClause_def b' b(3) ebind_simps Let_def prod.case
  consider "sat" | "\<not> sat" "nbLits = 0" | "\<not> sat" "nbLits = 1" | "\<not> sat" "2 \<le> nbLits"
    by (cases sat; cases "nbLits = 0"; cases "nbLits = 1") auto
  then show thesis
  proof cases
    case 1
    with assms b show ?thesis
      by (intro satisfied[of c' nbLits])
        (auto simp: unf ebind_Inr_iff at_Inr_iff a_def[symmetric])
  next
    case 2
    with assms b show ?thesis
      by (intro empty[of c']) (auto simp: unf a_def[symmetric])
  next
    case 3
    with assms obtain pb2 where
      u: "0 < length c'" "addUnit (pb\<lparr>Store := (Store pb)[a := c']\<rparr>) (c' ! 0) = Inr pb2"
      by (auto simp: unf ebind_Inr_iff at_Inr_iff)
    then have u': "at c' 0 = Inr (c' ! 0)" by (simp add: at_def)
    from 3 assms b u show ?thesis
      by (intro unit[of c' pb2])
        (auto simp: unf u' ebind_Inr_iff at_Inr_iff a_def[symmetric] split: if_splits)
  next
    case 4
    with assms b show ?thesis
      by (intro kept[of c' nbLits]) (auto simp: unf a_def[symmetric] split: if_splits)
  qed
qed


definition scan_inv :: "Problem \<Rightarrow> nat \<Rightarrow> bool \<Rightarrow> nat \<Rightarrow> bool" where
  "scan_inv pb n r i \<longleftrightarrow>
     i \<le> n \<and> n \<le> length (Clauses pb) \<and> (\<not> r \<longrightarrow> (\<forall>k<i. normalized pb (Clauses pb ! k)))"

lemma normalized_scanLits:
  assumes "normalized pb a"
  shows "scanLits (Model pb) (Store pb ! a) 0 (length (Store pb ! a))
         = Inr (Store pb ! a, length (Store pb ! a), False)"
  using assms by (intro scanLits_unbound) (auto simp: normalized_def)

lemma normalized_Store_update:
  assumes "normalized pb b" and "b \<noteq> a \<or> c = Store pb ! a"
  shows "normalized (pb\<lparr>Store := (Store pb)[a := c]\<rparr>) b"
  using assms by (auto simp: normalized_def list_update_same_conv)

lemma normalized_Clauses_update [simp]:
  "normalized (pb\<lparr>Clauses := cs\<rparr>) b = normalized pb b"
  by (simp add: normalized_def)

lemma normalized_Status_update [simp]:
  "normalized (pb\<lparr>Status := s\<rparr>) b = normalized pb b"
  by (simp add: normalized_def)

lemma addUnit_length: "addUnit pb l = Inr pb' \<Longrightarrow> length (Clauses pb') = length (Clauses pb)"
  by (auto simp: addUnit_def ebind_Inr_iff split: if_splits)

lemma scanClause_inv:
  assumes step: "scanClause pb n r i = Inr (Cont pb' n' r' i')"
    and "i < n" and inv: "scan_inv pb n r i"
  shows "scan_inv pb' n' r' i'"
  using step
proof (cases rule: scanClause_cases)
  case (satisfied c' nbLits)
  define a where "a = Clauses pb ! i"
  have keep: "normalized pb' (Clauses pb' ! k)" if "\<not> r" "k < i" for k
  proof -
    from inv that have nk: "normalized pb (Clauses pb ! k)" by (simp add: scan_inv_def)
    have "Clauses pb ! k \<noteq> a"
    proof
      assume "Clauses pb ! k = a"
      with nk normalized_scanLits[of pb a] satisfied(3) show False by (simp add: a_def)
    qed
    with nk that satisfied(5) show ?thesis
      by (auto simp: a_def intro: normalized_Store_update)
  qed
  with satisfied(5) inv \<open>i < n\<close> show ?thesis by (auto simp: scan_inv_def)
next
  case (empty c')
  then show ?thesis by simp
next
  case (unit c' pb2)
  with addUnit_length[OF unit(5)] inv \<open>i < n\<close> show ?thesis by (auto simp: scan_inv_def)
next
  case (kept c' nbLits)
  define a where "a = Clauses pb ! i"
  define c where "c = Store pb ! a"
  from kept(2) have a: "a < length (Store pb)" by (simp add: a_def)
  from scanLits_post[OF kept(3)]
  have post: "length c' = length c" "nbLits \<le> length c" "\<forall>k<nbLits. unbound (Model pb) (c' ! k)"
    by (simp_all add: a_def c_def)
  have pb': "pb' = pb\<lparr>Store := (Store pb)[a := take nbLits c']\<rparr>"
    and rest: "n' = n" "r' = r" "i' = i + 1"
    using kept(5) by (simp_all add: a_def)
  have new: "normalized pb' a"
  proof -
    from post kept(4) have "2 \<le> length (take nbLits c')" by simp
    moreover have "\<forall>l\<in>set (take nbLits c'). unbound (Model pb) l"
      using post by (auto simp: in_set_conv_nth)
    ultimately show ?thesis using a by (simp add: normalized_def pb')
  qed
  have keep: "normalized pb' (Clauses pb' ! k)" if "\<not> r" "k < i" for k
  proof -
    from inv that have nk: "normalized pb (Clauses pb ! k)" by (simp add: scan_inv_def)
    show ?thesis
    proof (cases "Clauses pb ! k = a")
      case True
      with new show ?thesis by (simp add: pb')
    next
      case False
      with nk show ?thesis by (auto simp: pb' intro: normalized_Store_update)
    qed
  qed
  have "normalized pb' (Clauses pb' ! k)" if "\<not> r" "k < i + 1" for k
    using that keep[of k] new by (cases "k = i") (auto simp: pb' a_def)
  with inv \<open>i < n\<close> rest show ?thesis by (auto simp: scan_inv_def pb')
qed

lemma scanClauses_inv:
  "scanClauses pb n r i = Inr (Scanned pb' n' r') \<Longrightarrow> scan_inv pb n r i
   \<Longrightarrow> scan_inv pb' n' r' n'"
proof (induction pb n r i rule: scanClauses.induct)
  case (1 pb n r i)
  show ?case
  proof (cases "i < n")
    case False
    with "1.prems" show ?thesis
      by (auto simp: scanClauses.simps[of pb n r i] scan_inv_def)
  next
    case True
    with "1.prems"(1) obtain pb1 n1 r1 i1 where
      step: "scanClause pb n r i = Inr (Cont pb1 n1 r1 i1)" and
      rest: "scanClauses pb1 n1 r1 i1 = Inr (Scanned pb' n' r')"
      by (auto simp: scanClauses.simps[of pb n r i] split: sum.splits scan_step.splits)
    from "1.IH"[OF True step refl rest scanClause_inv[OF step True "1.prems"(2)]]
    show ?thesis .
  qed
qed

lemma restartLoop_normalized:
  "restartLoop pb n = Inr pb' \<Longrightarrow> n \<le> length (Clauses pb) \<Longrightarrow> Status pb' \<noteq> Unsat
   \<Longrightarrow> \<forall>a\<in>set (Clauses pb'). normalized pb' a"
proof (induction pb n rule: restartLoop.induct)
  case (1 pb n)
  from "1.prems"(1) obtain res where res: "scanClauses pb n False 0 = Inr res"
    by (auto simp: restartLoop.simps[of pb n] split: sum.splits)
  show ?case
  proof (cases res)
    case (Returned pb1)
    with res "1.prems" scanClauses_Returned_Unsat[of pb n False 0 pb1] show ?thesis
      by (auto simp: restartLoop.simps[of pb n])
  next
    case (Scanned pb1 n1 r1)
    from "1.prems"(2) have "scan_inv pb n False 0" by (simp add: scan_inv_def)
    from scanClauses_inv[OF res[unfolded Scanned] this]
    have inv: "scan_inv pb1 n1 r1 n1" .
    show ?thesis
    proof (cases r1)
      case True
      with Scanned res "1.prems"(1) have "restartLoop pb1 n1 = Inr pb'"
        by (simp add: restartLoop.simps[of pb n])
      from "1.IH"[OF res Scanned True this _ "1.prems"(3)] inv show ?thesis
        by (simp add: scan_inv_def)
    next
      case False
      with Scanned res "1.prems"(1) have "updateStatus pb1 [] (int n1) = Inr pb'"
        by (simp add: restartLoop.simps[of pb n])
      then have "Clauses pb' = take n1 (Clauses pb1)" "Store pb' = Store pb1"
        "Model pb' = Model pb1"
        by (auto simp: updateStatus_def Let_def split: if_splits)
      moreover have "normalized pb' a = normalized pb1 a" for a
        using calculation by (simp add: normalized_def)
      moreover from inv False have "\<forall>k<n1. normalized pb1 (Clauses pb1 ! k)" "n1 \<le> length (Clauses pb1)"
        by (simp_all add: scan_inv_def)
      ultimately show ?thesis
        by (auto simp: in_set_conv_nth)
    qed
  qed
qed

lemma Simplify2_normalized:
  "Simplify2 pb = Inr pb' \<Longrightarrow> Status pb' \<noteq> Unsat \<Longrightarrow> \<forall>a\<in>set (Clauses pb'). normalized pb' a"
  unfolding Simplify2_def by (erule restartLoop_normalized) simp_all

lemma Subsumption_normalized:
  assumes "Subsumption ops pb = Inr pb'" and "Status pb' \<noteq> Unsat"
  shows "\<forall>a\<in>set (Clauses pb'). normalized pb' a"
proof -
  from assms obtain t where
    "Simplify2 (pb\<lparr>Clauses := keepUnmarked (Clauses pb) t\<rparr>) = Inr pb'"
    by (auto simp: Subsumption_def ebind_Inr_iff Let_def)
  from Simplify2_normalized[OF this assms(2)] show ?thesis .
qed

section \<open>The occurrence index and the pair tests\<close>

lemma occursLits_Inr:
  "occursLits occ i c = Inr occ' \<Longrightarrow>
     length occ' = length occ \<and> (\<forall>l\<in>set c. l < length occ) \<and>
     (\<forall>l<length occ. set (occ' ! l) = set (occ ! l) \<union> (if l \<in> set c then {i} else {}))"
proof (induction c arbitrary: occ)
  case Nil
  then show ?case by simp
next
  case (Cons x c)
  from Cons.prems have x: "x < length occ" and
    run: "occursLits (occ[x := occ ! x @ [i]]) i c = Inr occ'"
    by (auto split: if_splits)
  from Cons.IH[OF run] x show ?case
    by (auto simp: nth_list_update)
qed

lemma occursLits_ok:
  "\<forall>l\<in>set c. l < length occ \<Longrightarrow> \<exists>occ'. occursLits occ i c = Inr occ'"
  by (induction c arbitrary: occ) auto

definition clause_ok :: "Problem \<Rightarrow> nat \<Rightarrow> nat \<Rightarrow> bool" where
  "clause_ok pb m a \<longleftrightarrow> a < length (Store pb) \<and> (\<forall>l\<in>set (Store pb ! a). l < m)"

lemma occursClauses_Inr:
  "occursClauses pb occ i as = Inr occ' \<Longrightarrow>
     length occ' = length occ \<and> (\<forall>a\<in>set as. clause_ok pb (length occ) a) \<and>
     (\<forall>l<length occ. set (occ' ! l) =
        set (occ ! l) \<union> {i + k |k. k < length as \<and> l \<in> set (Store pb ! (as ! k))})"
proof (induction as arbitrary: occ i)
  case Nil
  then show ?case by simp
next
  case (Cons a as)
  from Cons.prems obtain occ1 where a: "a < length (Store pb)" and
    lits: "occursLits occ i (Store pb ! a) = Inr occ1" and
    run: "occursClauses pb occ1 (i + 1) as = Inr occ'"
    by (auto simp: deref_def split: sum.splits if_splits)
  note L = occursLits_Inr[OF lits] and C = Cons.IH[OF run]
  have len: "length occ' = length occ" using L C by simp
  have ok: "\<forall>b\<in>set (a # as). clause_ok pb (length occ) b"
    using L C a by (auto simp: clause_ok_def)
  have "set (occ' ! l) =
        set (occ ! l) \<union> {i + k |k. k < length (a # as) \<and> l \<in> set (Store pb ! ((a # as) ! k))}"
    if l: "l < length occ" for l
  proof -
    from C l L have "set (occ' ! l) = set (occ1 ! l) \<union>
        {i + 1 + k |k. k < length as \<and> l \<in> set (Store pb ! (as ! k))}" by simp
    moreover from L l have "set (occ1 ! l) = set (occ ! l) \<union>
        (if l \<in> set (Store pb ! a) then {i} else {})" by simp
    moreover have "{i + k |k. k < length (a # as) \<and> l \<in> set (Store pb ! ((a # as) ! k))}
        = (if l \<in> set (Store pb ! a) then {i} else {}) \<union>
          {i + 1 + k |k. k < length as \<and> l \<in> set (Store pb ! (as ! k))}"
      (is "?A = ?B")
    proof (intro set_eqI iffI)
      fix x assume "x \<in> ?A"
      then obtain k where k: "x = i + k" "k < length (a # as)"
        "l \<in> set (Store pb ! ((a # as) ! k))" by blast
      then show "x \<in> ?B" by (cases k) auto
    next
      fix x assume "x \<in> ?B"
      then consider "l \<in> set (Store pb ! a)" "x = i"
        | k where "x = i + 1 + k" "k < length as" "l \<in> set (Store pb ! (as ! k))"
        by (auto split: if_splits)
      then show "x \<in> ?A"
      proof cases
        case 1
        then have "x = i + 0 \<and> 0 < length (a # as) \<and> l \<in> set (Store pb ! ((a # as) ! 0))"
          by simp
        then show ?thesis by blast
      next
        case (2 k)
        then have "x = i + Suc k \<and> Suc k < length (a # as)
          \<and> l \<in> set (Store pb ! ((a # as) ! Suc k))" by simp
        then show ?thesis by blast
      qed
    qed
    ultimately show ?thesis by (simp add: Un_assoc)
  qed
  with len ok show ?case by blast
qed

lemma occursClauses_ok:
  "\<forall>a\<in>set as. clause_ok pb (length occ) a \<Longrightarrow> \<exists>occ'. occursClauses pb occ i as = Inr occ'"
proof (induction as arbitrary: occ i)
  case Nil
  then show ?case by simp
next
  case (Cons a as)
  then have a: "a < length (Store pb)" "\<forall>l\<in>set (Store pb ! a). l < length occ"
    by (auto simp: clause_ok_def)
  from occursLits_ok[OF a(2)] obtain occ1 where
    lits: "occursLits occ i (Store pb ! a) = Inr occ1" by blast
  from occursLits_Inr[OF lits] have "length occ1 = length occ" by simp
  with Cons.prems have "\<forall>a\<in>set as. clause_ok pb (length occ1) a" by simp
  from Cons.IH[OF this] obtain occ' where "occursClauses pb occ1 (i + 1) as = Inr occ'"
    by blast
  with a lits show ?case by (simp add: deref_def)
qed

text \<open>Every clause of the database is an allocated object whose literals are literals
  of the problem's variables.\<close>

definition wf_db :: "Problem \<Rightarrow> bool" where
  "wf_db pb \<longleftrightarrow> (\<forall>a\<in>set (Clauses pb). clause_ok pb (NbVars pb * 2) a)"

lemma buildOccurs_Inr:
  assumes "buildOccurs pb = Inr occ"
  shows "length occ = NbVars pb * 2" and "wf_db pb"
    and "l < NbVars pb * 2 \<Longrightarrow>
         set (occ ! l) = {k. k < length (Clauses pb) \<and> l \<in> set (Store pb ! (Clauses pb ! k))}"
  using occursClauses_Inr[OF assms[unfolded buildOccurs_def]]
  by (auto simp: wf_db_def)

lemma buildOccurs_ok: "wf_db pb \<Longrightarrow> \<exists>occ. buildOccurs pb = Inr occ"
  unfolding buildOccurs_def wf_db_def by (rule occursClauses_ok) simp


lemma scanIdx1_no_negs:
  "at (ss_occurs st) (Negation (var_Lit v)) = Inr [] \<Longrightarrow> scanIdx1 ops st v idxs = Inr (SNext st)"
  by (induction idxs) auto

lemma pairStep_tests:
  assumes "pairStep ops st v i1 i2 = Inr p" and "p = PNext st' \<or> p = PBreak st'"
  shows "ss_tests st' = ss_tests st @ [(i1, i2)]"
  using assms(1)
proof (cases rule: pairStep_cases)
  case (none c1 c2)
  with assms(2) show ?thesis by auto
next
  case (branch c1 c2 c idxs)
  from branch(6) assms(2) show ?thesis
    by (cases rule: resolveBranch_cases) auto
qed

section \<open>Removal by swap with the last clause\<close>

lemma swapRemove_Inr:
  "swapRemove pb idx = Inr pb' \<longleftrightarrow>
     idx < length (Clauses pb) \<and>
     pb' = pb\<lparr>Clauses := butlast ((Clauses pb)[idx := last (Clauses pb)])\<rparr>"
  by (auto simp: swapRemove_def)

lemma mset_swap_remove:
  assumes "j < length ys"
  shows "mset (butlast (ys[j := last ys])) = mset ys - {#ys ! j#}"
proof -
  from assms obtain zs z where ys: "ys = zs @ [z]"
    by (cases ys rule: rev_cases) auto
  show ?thesis
  proof (cases "j < length zs")
    case True
    then show ?thesis
      by (simp add: ys list_update_append nth_append mset_update)
  next
    case False
    with assms ys have "j = length zs" by simp
    then show ?thesis by (simp add: ys)
  qed
qed

lemma set_swap_remove: "set (butlast (ys[j := last ys])) \<subseteq> set ys"
proof (cases "ys = []")
  case True
  then show ?thesis by simp
next
  case False
  have "set (butlast (ys[j := last ys])) \<subseteq> set (ys[j := last ys])"
    by (auto dest: in_set_butlastD)
  also have "\<dots> \<subseteq> insert (last ys) (set ys)" by (rule set_update_subset_insert)
  also from False have "\<dots> = set ys" by (simp add: insert_absorb)
  finally show ?thesis .
qed

lemma map_swap_remove:
  "map f (butlast (ys[j := last ys])) = butlast ((map f ys)[j := last (map f ys)])"
  by (cases "ys = []") (simp_all add: map_butlast map_update last_map)

lemma clauseDB_swapRemove:
  assumes "swapRemove pb idx = Inr pb'"
  shows "clauseDB pb' = butlast ((clauseDB pb)[idx := last (clauseDB pb)])"
  using assms by (auto simp: swapRemove_Inr clauseDB_def map_swap_remove)

lemma two_positions_mset:
  assumes "i < length xs" "j < length xs" "i \<noteq> j"
  shows "xs ! j \<in># mset xs - {#xs ! i#}"
proof -
  have "mset (xs[i := xs ! j]) = add_mset (xs ! j) (mset xs - {#xs ! i#})"
    using assms by (simp add: mset_update)
  have "mset xs - {#xs ! i#} = mset (take i xs) + mset (drop (Suc i) xs)"
    using id_take_nth_drop[OF assms(1)]
    by (metis add_mset_remove_trivial mset.simps(2) mset_append union_mset_add_mset_right)
  moreover have "xs ! j \<in> set (take i xs) \<union> set (drop (Suc i) xs)"
  proof (cases "j < i")
    case True
    with assms have "xs ! j = take i xs ! j" "j < length (take i xs)" by simp_all
    then show ?thesis by (metis UnI1 nth_mem)
  next
    case False
    with assms have j: "Suc i \<le> j" by simp
    then have "xs ! j = drop (Suc i) xs ! (j - Suc i)" using assms by simp
    moreover from j assms have "j - Suc i < length (drop (Suc i) xs)" by simp
    ultimately show ?thesis by (metis UnI2 nth_mem)
  qed
  ultimately show ?thesis by simp
qed

lemma addResolvent_append:
  assumes "simplify ops c = (False, newC)" and "2 \<le> length newC"
  shows "addResolvent ops pb c =
           Inr (Go_on (pb\<lparr>Store := Store pb @ [newC],
                           Clauses := Clauses pb @ [length (Store pb)]\<rparr>))"
  using assms by (auto simp: addResolvent_def)

lemma clauseDB_append:
  assumes "\<forall>a\<in>set (Clauses pb). a < length (Store pb)"
  shows "clauseDB (pb\<lparr>Store := Store pb @ [newC],
                        Clauses := Clauses pb @ [length (Store pb)]\<rparr>) = clauseDB pb @ [newC]"
  using assms by (simp add: clauseDB_def nth_append)


lemma both_removed_mset:
  assumes i: "idx1 < length db" and j: "idx2 < length db" and ne: "idx1 \<noteq> idx2"
    and vs1_def: "vs1 = butlast ((db @ [newC])[idx1 := last (db @ [newC])])"
  shows "mset (butlast (vs1[idx2 := last vs1]))
         = mset db - {#db ! idx1#} - {#db ! idx2#} + {#newC#}"
proof -
  from i have vs1: "vs1 = db[idx1 := newC]"
    by (simp add: vs1_def list_update_append)
  with j have "mset (butlast (vs1[idx2 := last vs1])) = mset vs1 - {#vs1 ! idx2#}"
    by (intro mset_swap_remove) simp
  also from vs1 i ne have "\<dots> = add_mset newC (mset db - {#db ! idx1#}) - {#db ! idx2#}"
    by (simp add: mset_update)
  also from two_positions_mset[OF i j ne]
  have "\<dots> = mset db - {#db ! idx1#} - {#db ! idx2#} + {#newC#}"
    by (simp add: insert_DiffM) 
  finally show ?thesis .
qed


lemma wf_db_after_removal:
  assumes wf: "wf_db pb" and lits: "\<forall>l\<in>set newC. l < NbVars pb * 2"
    and sub: "set cs \<subseteq> set (Clauses pb @ [length (Store pb)])"
  shows "wf_db (pb\<lparr>Store := Store pb @ [newC], Clauses := cs\<rparr>)"
  unfolding wf_db_def
proof
  fix a assume "a \<in> set (Clauses (pb\<lparr>Store := Store pb @ [newC], Clauses := cs\<rparr>))"
  with sub have "a \<in> set (Clauses pb) \<or> a = length (Store pb)" by auto
  then show "clause_ok (pb\<lparr>Store := Store pb @ [newC], Clauses := cs\<rparr>)
               (NbVars (pb\<lparr>Store := Store pb @ [newC], Clauses := cs\<rparr>) * 2) a"
  proof
    assume "a \<in> set (Clauses pb)"
    with wf show ?thesis by (auto simp: wf_db_def clause_ok_def nth_append)
  next
    assume "a = length (Store pb)"
    with lits show ?thesis by (auto simp: clause_ok_def)
  qed
qed

section \<open>The positions Subsumption marks\<close>

lemma foldE_inv:
  assumes "foldE f s xs = Inr s'" and "P s"
    and "\<And>s x s'. x \<in> set xs \<Longrightarrow> P s \<Longrightarrow> f s x = Inr s' \<Longrightarrow> P s'"
  shows "P s'"
  using assms
proof (induction xs arbitrary: s)
  case Nil
  then show ?case by simp
next
  case (Cons x xs)
  from Cons.prems(1) obtain s1 where s1: "f s x = Inr s1" "foldE f s1 xs = Inr s'"
    by (auto split: sum.splits)
  from Cons.prems(3)[OF _ Cons.prems(2) s1(1)] have "P s1" by simp
  show ?case
  proof (rule Cons.IH[OF s1(2) \<open>P s1\<close>])
    fix s x' s' assume "x' \<in> set xs" "P s" "f s x' = Inr s'"
    then show "P s'" using Cons.prems(3)[of x' s s'] by simp
  qed
qed

text \<open>Position \<open>idx\<close> holds a clause that a strictly shorter clause of the database,
  sharing a literal with it, subsumes.\<close>

definition has_shorter_subsumer :: "clause_ops \<Rightarrow> Problem \<Rightarrow> nat \<Rightarrow> bool" where
  "has_shorter_subsumer ops pb idx \<longleftrightarrow>
     idx < length (clauseDB pb) \<and>
     (\<exists>idx' l. idx' < length (clauseDB pb)
        \<and> l \<in> set (clauseDB pb ! idx) \<and> l \<in> set (clauseDB pb ! idx')
        \<and> length (clauseDB pb ! idx') < length (clauseDB pb ! idx)
        \<and> subsumes ops (clauseDB pb ! idx') (clauseDB pb ! idx))"

lemma markPair_Inr:
  assumes "markPair ops pb t i1 i2 = Inr t'"
  shows "i1 < length (Clauses pb) \<and> i2 < length (Clauses pb) \<and>
    t' = t
      @ (if i2 < i1 \<and> length (clauseDB pb ! i2) < length (clauseDB pb ! i1)
            \<and> subsumes ops (clauseDB pb ! i2) (clauseDB pb ! i1) then [i1] else [])
      @ (if i2 < i1 \<and> length (clauseDB pb ! i1) < length (clauseDB pb ! i2)
            \<and> subsumes ops (clauseDB pb ! i1) (clauseDB pb ! i2) then [i2] else [])"
  using assms
  by (auto simp: markPair_def ebind_Inr_iff at_Inr_iff deref_Inr_iff clauseDB_def Let_def
      split: if_splits)

lemma markPair_ok:
  assumes run: "markPair ops pb t i1 i2 = Inr t'"
    and old: "\<forall>idx\<in>set t. has_shorter_subsumer ops pb idx"
    and l: "l \<in> set (clauseDB pb ! i1)" "l \<in> set (clauseDB pb ! i2)"
  shows "\<forall>idx\<in>set t'. has_shorter_subsumer ops pb idx"
proof -
  note m = markPair_Inr[OF run]
  then have len: "i1 < length (clauseDB pb)" "i2 < length (clauseDB pb)"
    by (simp_all add: clauseDB_def)
  have 1: "has_shorter_subsumer ops pb i1"
    if "length (clauseDB pb ! i2) < length (clauseDB pb ! i1)"
       "subsumes ops (clauseDB pb ! i2) (clauseDB pb ! i1)"
    unfolding has_shorter_subsumer_def using that len l by blast
  have 2: "has_shorter_subsumer ops pb i2"
    if "length (clauseDB pb ! i1) < length (clauseDB pb ! i2)"
       "subsumes ops (clauseDB pb ! i1) (clauseDB pb ! i2)"
    unfolding has_shorter_subsumer_def using that len l by blast
  from m old 1 2 show ?thesis by (auto split: if_splits)
qed

lemma markList_ok:
  assumes run: "markList ops pb t idxs = Inr t'"
    and old: "\<forall>idx\<in>set t. has_shorter_subsumer ops pb idx"
    and l: "\<forall>k\<in>set idxs. l \<in> set (clauseDB pb ! k)"
  shows "\<forall>idx\<in>set t'. has_shorter_subsumer ops pb idx"
proof (rule foldE_inv[OF run[unfolded markList_def], where P = "\<lambda>t. \<forall>idx\<in>set t. has_shorter_subsumer ops pb idx"])
  show "\<forall>idx\<in>set t. has_shorter_subsumer ops pb idx" by (rule old)
next
  fix s i1 s'
  assume i1: "i1 \<in> set idxs" and s: "\<forall>idx\<in>set s. has_shorter_subsumer ops pb idx"
    and inner: "foldE (\<lambda>t' idx2. markPair ops pb t' i1 idx2) s idxs = Inr s'"
  show "\<forall>idx\<in>set s'. has_shorter_subsumer ops pb idx"
  proof (rule foldE_inv[OF inner, where P = "\<lambda>t. \<forall>idx\<in>set t. has_shorter_subsumer ops pb idx"])
    show "\<forall>idx\<in>set s. has_shorter_subsumer ops pb idx" by (rule s)
  next
    fix u i2 u'
    assume "i2 \<in> set idxs" "\<forall>idx\<in>set u. has_shorter_subsumer ops pb idx"
      "markPair ops pb u i1 i2 = Inr u'"
    with i1 l markPair_ok[of ops pb u i1 i2 u' l]
    show "\<forall>idx\<in>set u'. has_shorter_subsumer ops pb idx" by blast
  qed
qed

lemma occurs_shares_literal:
  assumes "buildOccurs pb = Inr occ" and "l < NbVars pb * 2"
  shows "\<forall>k\<in>set (occ ! l). l \<in> set (clauseDB pb ! k)"
  using buildOccurs_Inr(3)[OF assms] by (auto simp: clauseDB_def)

lemma markVar_ok:
  assumes run: "markVar ops pb occ t i = Inr t'"
    and occ: "buildOccurs pb = Inr occ" and i: "i < NbVars pb"
    and old: "\<forall>idx\<in>set t. has_shorter_subsumer ops pb idx"
  shows "\<forall>idx\<in>set t'. has_shorter_subsumer ops pb idx"
proof (cases "Model pb ! i = 0")
  case False
  with run old show ?thesis
    by (auto simp: markVar_def ebind_Inr_iff at_Inr_iff)
next
  case True
  with run obtain t1 where
    t1: "markList ops pb t (occ ! var_Lit i) = Inr t1" and
    t': "markList ops pb t1 (occ ! Negation (var_Lit i)) = Inr t'"
    by (auto simp: markVar_def ebind_Inr_iff at_Inr_iff Let_def)
  from i have "var_Lit i < NbVars pb * 2" "Negation (var_Lit i) < NbVars pb * 2"
    by (auto simp: var_Lit_def Negation_def)
  note sh = occurs_shares_literal[OF occ this(1)] occurs_shares_literal[OF occ this(2)]
  from markList_ok[OF t' markList_ok[OF t1 old sh(1)] sh(2)] show ?thesis .
qed

lemma subsumptionMarks_ok:
  assumes "subsumptionMarks ops pb = Inr toRemove"
  shows "\<forall>idx\<in>set toRemove. has_shorter_subsumer ops pb idx"
proof -
  from assms obtain occ where occ: "buildOccurs pb = Inr occ" and
    run: "foldE (markVar ops pb occ) [] [0..<NbVars pb] = Inr toRemove"
    by (auto simp: subsumptionMarks_def ebind_Inr_iff)
  show ?thesis
  proof (rule foldE_inv[OF run, where P = "\<lambda>t. \<forall>idx\<in>set t. has_shorter_subsumer ops pb idx"])
    show "\<forall>idx\<in>set []. has_shorter_subsumer ops pb idx" by simp
  next
    fix s i s'
    assume "i \<in> set [0..<NbVars pb]" "\<forall>idx\<in>set s. has_shorter_subsumer ops pb idx"
      "markVar ops pb occ s i = Inr s'"
    then show "\<forall>idx\<in>set s'. has_shorter_subsumer ops pb idx"
      using markVar_ok[OF _ occ, of ops s i s'] by simp
  qed
qed

lemma keepUnmarked_keeps:
  assumes "idx < length cs" and "idx \<notin> set toRemove"
  shows "cs ! idx \<in> set (keepUnmarked cs toRemove)"
  using assms by (auto simp: keepUnmarked_def)

lemma keepUnmarked_none: "keepUnmarked cs [] = cs"
  by (simp add: keepUnmarked_def map_nth)

section \<open>A problem to which nothing applies\<close>

text \<open>Nothing applies to the problem: every clause is an allocated object with at least
  two literals, all of unbound variables of the problem; no clause of the database
  self-subsumes a clause of the database, none subsumes a longer one; and the database
  is not empty unless Status is already settled.\<close>

definition at_rest :: "clause_ops \<Rightarrow> Problem \<Rightarrow> bool" where
  "at_rest ops pb \<longleftrightarrow>
     wf_db pb \<and> NbVars pb \<le> length (Model pb) \<and>
     (\<forall>a\<in>set (Clauses pb). normalized pb a) \<and>
     (\<forall>c\<in>set (clauseDB pb). \<forall>d\<in>set (clauseDB pb).
        \<not> selfSubsumes ops c d \<and> (length c < length d \<longrightarrow> \<not> subsumes ops c d)) \<and>
     (Clauses pb \<noteq> [] \<or> Status pb \<noteq> Undetermined)"

lemma Problem_Store_id [simp]: "pb\<lparr>Store := Store pb\<rparr> = pb"
  by simp

lemma scanClause_normalized:
  assumes "i < length (Clauses pb)" and "normalized pb (Clauses pb ! i)"
  shows "scanClause pb n r i = Inr (Cont pb n r (i + 1))"
proof -
  define a where "a = Clauses pb ! i"
  from assms have a: "a < length (Store pb)" "2 \<le> length (Store pb ! a)"
    by (simp_all add: normalized_def a_def)
  from normalized_scanLits[OF assms(2)]
  have "scanLits (Model pb) (Store pb ! a) 0 (length (Store pb ! a))
         = Inr (Store pb ! a, length (Store pb ! a), False)" by (simp add: a_def)
  with assms(1) a show ?thesis
    by (auto simp: scanClause_def at_def deref_def a_def[symmetric] Let_def)
qed

lemma scanClauses_normalized:
  assumes "n \<le> length (Clauses pb)" and "\<forall>a\<in>set (Clauses pb). normalized pb a"
  shows "scanClauses pb n r i = Inr (Scanned pb n r)"
proof (induction "n - i" arbitrary: i)
  case 0
  then show ?case by (simp add: scanClauses.simps[of pb n r i])
next
  case (Suc k)
  then have i: "i < n" by simp
  with assms have "scanClause pb n r i = Inr (Cont pb n r (i + 1))"
    by (intro scanClause_normalized) auto
  moreover from Suc have "scanClauses pb n r (i + 1) = Inr (Scanned pb n r)" by simp
  ultimately show ?case using i by (simp add: scanClauses.simps[of pb n r i])
qed

lemma Simplify2_at_rest:
  assumes "\<forall>a\<in>set (Clauses pb). normalized pb a"
    and "Clauses pb \<noteq> [] \<or> Status pb \<noteq> Undetermined"
  shows "Simplify2 pb = Inr pb"
proof -
  have "scanClauses pb (length (Clauses pb)) False 0
          = Inr (Scanned pb (length (Clauses pb)) False)"
    using assms(1) by (intro scanClauses_normalized) simp_all
  moreover have "updateStatus pb [] (int (length (Clauses pb))) = Inr pb"
    using assms(2) by (auto simp: updateStatus_def Let_def)
  ultimately show ?thesis
    by (simp add: Simplify2_def restartLoop.simps[of pb "length (Clauses pb)"])
qed

lemma foldE_const:
  "\<forall>x\<in>set xs. f s x = Inr s \<Longrightarrow> foldE f s xs = Inr s"
  by (induction xs) auto

lemma at_rest_valid:
  assumes "at_rest ops pb" and "k < length (Clauses pb)"
  shows "Clauses pb ! k < length (Store pb)" and "clauseDB pb ! k \<in> set (clauseDB pb)"
    and "clauseDB pb ! k = Store pb ! (Clauses pb ! k)"
  using assms by (auto simp: at_rest_def wf_db_def clause_ok_def clauseDB_def)

lemma markPair_at_rest:
  assumes rest: "at_rest ops pb" and i: "i1 < length (Clauses pb)" "i2 < length (Clauses pb)"
  shows "markPair ops pb t i1 i2 = Inr t"
proof -
  note v1 = at_rest_valid[OF rest i(1)] and v2 = at_rest_valid[OF rest i(2)]
  from rest v1(2) v2(2)
  have "\<not> (length (clauseDB pb ! i2) < length (clauseDB pb ! i1)
           \<and> subsumes ops (clauseDB pb ! i2) (clauseDB pb ! i1))"
    "\<not> (length (clauseDB pb ! i1) < length (clauseDB pb ! i2)
           \<and> subsumes ops (clauseDB pb ! i1) (clauseDB pb ! i2))"
    by (auto simp: at_rest_def)
  with i v1 v2 show ?thesis
    by (auto simp: markPair_def at_def deref_def Let_def)
qed

lemma markList_at_rest:
  assumes rest: "at_rest ops pb" and idxs: "\<forall>k\<in>set idxs. k < length (Clauses pb)"
  shows "markList ops pb t idxs = Inr t"
  unfolding markList_def
  by (intro foldE_const ballI) (simp add: markPair_at_rest[OF rest] idxs)

lemma occurs_valid:
  assumes "buildOccurs pb = Inr occ" and "l < NbVars pb * 2"
  shows "at occ l = Inr (occ ! l)" and "\<forall>k\<in>set (occ ! l). k < length (Clauses pb)"
  using buildOccurs_Inr[OF assms(1)] assms(2) by (auto simp: at_def)

lemma var_lits_in_range:
  "i < n \<Longrightarrow> var_Lit i < n * 2" "i < n \<Longrightarrow> Negation (var_Lit i) < n * 2"
  by (auto simp: var_Lit_def Negation_def)

lemma markVar_at_rest:
  assumes rest: "at_rest ops pb" and occ: "buildOccurs pb = Inr occ" and i: "i < NbVars pb"
  shows "markVar ops pb occ t i = Inr t"
proof -
  from rest i have m: "at (Model pb) i = Inr (Model pb ! i)"
    by (simp add: at_rest_def at_def)
  note p = occurs_valid[OF occ var_lits_in_range(1)[OF i]]
    and n = occurs_valid[OF occ var_lits_in_range(2)[OF i]]
  show ?thesis
    by (simp add: markVar_def m Let_def p(1) n(1)
        markList_at_rest[OF rest p(2)] markList_at_rest[OF rest n(2)])
qed

lemma Subsumption_at_rest:
  assumes rest: "at_rest ops pb"
  shows "Subsumption ops pb = Inr pb"
proof -
  from rest have "wf_db pb" by (simp add: at_rest_def)
  from buildOccurs_ok[OF this] obtain occ where occ: "buildOccurs pb = Inr occ" by blast
  have "foldE (markVar ops pb occ) [] [0..<NbVars pb] = Inr []"
    by (intro foldE_const ballI) (simp add: markVar_at_rest[OF rest occ])
  with occ have marks: "subsumptionMarks ops pb = Inr []"
    by (simp add: subsumptionMarks_def)
  from rest have "Simplify2 pb = Inr pb"
    by (intro Simplify2_at_rest) (auto simp: at_rest_def)
  with marks occ show ?thesis
    by (simp add: Subsumption_def keepUnmarked_none)
qed


text \<open>Only the record of the tested pairs differs.\<close>

definition quiet :: "ss_state \<Rightarrow> ss_state \<Rightarrow> bool" where
  "quiet st st' \<longleftrightarrow>
     ss_pb st' = ss_pb st \<and> ss_occurs st' = ss_occurs st \<and>
     ss_modified st' = ss_modified st \<and> ss_never st' = ss_never st"

lemma quiet_refl [simp]: "quiet st st"
  by (simp add: quiet_def)

lemma quiet_trans: "quiet a b \<Longrightarrow> quiet b c \<Longrightarrow> quiet a c"
  by (simp add: quiet_def)

lemma pairStep_at_rest:
  assumes rest: "at_rest ops (ss_pb st)"
    and i: "i1 < length (Clauses (ss_pb st))" "i2 < length (Clauses (ss_pb st))"
  shows "pairStep ops st v i1 i2 = Inr (PNext (st\<lparr>ss_tests := ss_tests st @ [(i1, i2)]\<rparr>))"
proof -
  note v1 = at_rest_valid[OF rest i(1)] and v2 = at_rest_valid[OF rest i(2)]
  from rest v1(2) v2(2)
  have "\<not> selfSubsumes ops (clauseDB (ss_pb st) ! i1) (clauseDB (ss_pb st) ! i2)"
    "\<not> selfSubsumes ops (clauseDB (ss_pb st) ! i2) (clauseDB (ss_pb st) ! i1)"
    by (auto simp: at_rest_def)
  with i v1 v2 show ?thesis
    by (simp add: pairStep_def at_def deref_def Let_def)
qed

lemma scanIdx2_at_rest:
  assumes "at_rest ops (ss_pb st)" and "i1 < length (Clauses (ss_pb st))"
    and "\<forall>k\<in>set idxs. k < length (Clauses (ss_pb st))"
  shows "\<exists>st'. scanIdx2 ops st v i1 idxs = Inr (PNext st') \<and> quiet st st'"
  using assms
proof (induction idxs arbitrary: st)
  case Nil
  then show ?case by simp
next
  case (Cons i2 idxs)
  define st1 where "st1 = st\<lparr>ss_tests := ss_tests st @ [(i1, i2)]\<rparr>"
  from Cons.prems have step: "pairStep ops st v i1 i2 = Inr (PNext st1)"
    unfolding st1_def by (intro pairStep_at_rest) simp_all
  have q: "quiet st st1" by (simp add: quiet_def st1_def)
  with Cons.prems have "\<exists>st'. scanIdx2 ops st1 v i1 idxs = Inr (PNext st') \<and> quiet st1 st'"
    by (intro Cons.IH) (simp_all add: quiet_def)
  with step q show ?case by (auto intro: quiet_trans)
qed

lemma scanIdx1_at_rest:
  assumes "at_rest ops (ss_pb st)" and "buildOccurs (ss_pb st) = Inr (ss_occurs st)"
    and "v < NbVars (ss_pb st)" and "\<forall>k\<in>set idxs. k < length (Clauses (ss_pb st))"
  shows "\<exists>st'. scanIdx1 ops st v idxs = Inr (SNext st') \<and> quiet st st'"
  using assms
proof (induction idxs arbitrary: st)
  case Nil
  then show ?case by simp
next
  case (Cons i1 idxs)
  note n = occurs_valid[OF Cons.prems(2) var_lits_in_range(2)[OF Cons.prems(3)]]
  from Cons.prems n(2)
  obtain st1 where
    inner: "scanIdx2 ops st v i1 (ss_occurs st ! Negation (var_Lit v)) = Inr (PNext st1)"
    and q: "quiet st st1"
    using scanIdx2_at_rest[of ops st i1 "ss_occurs st ! Negation (var_Lit v)" v] by auto
  show ?case
  proof (cases "ss_modified st1")
    case True
    with inner n(1) q show ?thesis by auto
  next
    case False
    from Cons.prems q
    have "\<exists>st'. scanIdx1 ops st1 v idxs = Inr (SNext st') \<and> quiet st1 st'"
      by (intro Cons.IH) (simp_all add: quiet_def)
    with False inner n(1) q show ?thesis by (auto intro: quiet_trans)
  qed
qed

lemma selfSubVar_at_rest:
  assumes rest: "at_rest ops (ss_pb st)" and occ: "buildOccurs (ss_pb st) = Inr (ss_occurs st)"
    and i: "i < NbVars (ss_pb st)"
  shows "\<exists>st'. selfSubVar ops st i = Inr (SNext st') \<and> quiet st st'"
proof -
  from rest i have m: "at (Model (ss_pb st)) i = Inr (Model (ss_pb st) ! i)"
    by (simp add: at_rest_def at_def)
  note p = occurs_valid[OF occ var_lits_in_range(1)[OF i]]
    and n = occurs_valid[OF occ var_lits_in_range(2)[OF i]]
  from scanIdx1_at_rest[OF rest occ i p(2)] m p(1) n(1)
  show ?thesis by (auto simp: selfSubVar_def Let_def)
qed

lemma varLoop_at_rest:
  assumes "at_rest ops (ss_pb st)" and "buildOccurs (ss_pb st) = Inr (ss_occurs st)"
    and "\<forall>i\<in>set vs. i < NbVars (ss_pb st)"
  shows "\<exists>st'. varLoop ops st vs = Inr (SNext st') \<and> quiet st st'"
  using assms
proof (induction vs arbitrary: st)
  case Nil
  then show ?case by simp
next
  case (Cons i vs)
  from selfSubVar_at_rest[OF Cons.prems(1,2), of i] Cons.prems(3)
  obtain st1 where step: "selfSubVar ops st i = Inr (SNext st1)" and q: "quiet st st1"
    by auto
  from Cons.prems q
  have "\<exists>st'. varLoop ops st1 vs = Inr (SNext st') \<and> quiet st1 st'"
    by (intro Cons.IH) (simp_all add: quiet_def)
  with step q show ?case by (auto intro: quiet_trans)
qed

lemma SelfSub_at_rest:
  assumes rest: "at_rest ops pb"
  shows "SelfSub ops pb = Some (Inr pb)"
proof -
  from rest have "wf_db pb" by (simp add: at_rest_def)
  from buildOccurs_ok[OF this] obtain occ where occ: "buildOccurs pb = Inr occ" by blast
  define st0 where "st0 = \<lparr>ss_pb = pb, ss_occurs = occ, ss_modified = True,
                               ss_never = True, ss_tests = []\<rparr>"
  from rest occ
  obtain st' where
    sweep: "varLoop ops (st0\<lparr>ss_modified := False\<rparr>) [0..<NbVars (ss_pb st0)] = Inr (SNext st')"
    and q: "quiet (st0\<lparr>ss_modified := False\<rparr>) st'"
    using varLoop_at_rest[of ops "st0\<lparr>ss_modified := False\<rparr>" "[0..<NbVars (ss_pb st0)]"]
    by (auto simp: st0_def)
  from q have st': "\<not> ss_modified st'" "ss_never st'" "ss_pb st' = pb"
    by (simp_all add: quiet_def st0_def)
  from sweep st' have "sweepLoop ops st0 = Some (Inr (SNext st'))"
    by (subst sweepLoop.simps) simp
  with occ st' show ?thesis by (simp add: SelfSub_def st0_def)
qed

section \<open>The claims\<close>


text \<open>
  Claim C2 (no operation fails through a panic; the two swap-with-last removals of the
  both-directions branch of \<^verbatim>\<open>SelfSub\<close> never index past the end): on scenario C of the
  spec the resolvent is the unit \<open>x\<^sub>2\<close>, nothing is appended, the first removal shortens
  the database to one clause and the second one indexes position 1: \<^verbatim>\<open>SelfSub\<close> panics.
\<close>

theorem SelfSub_scenarioC_panics:
  "SelfSub spec_ops scenarioC = Some (Inl IndexOutOfRange)"
  by code_simp

text \<open>
  Claim C1 (preprocessing preserves satisfiability for every well-formed formula):
  scenario C of the spec is well-formed and satisfiable, and \<^verbatim>\<open>Preprocess\<close> produces no
  formula for it: it panics in \<^verbatim>\<open>SelfSub\<close>.
\<close>

theorem Preprocess_scenarioC_panics:
  "NbVars scenarioC = 2 \<and> clauseDB scenarioC = [[0, 2], [1, 2]]
   \<and> Status scenarioC = Undetermined \<and> Model scenarioC = [0, 0]
   \<and> Preprocess spec_ops scenarioC = Some (Inl IndexOutOfRange)"
  by code_simp

text \<open>
  Claim C8 (Status is monotone): no operation (\<^verbatim>\<open>updateStatus\<close>, \<^verbatim>\<open>addUnit\<close>,
  \<^verbatim>\<open>Simplify2\<close>, \<^verbatim>\<open>SelfSub\<close>, \<^verbatim>\<open>Subsumption\<close>, \<^verbatim>\<open>Preprocess\<close>) changes Status once
  it is Unsat, and when an operation takes Status from Undetermined to Sat the clause
  database it leaves is empty. For \<^verbatim>\<open>updateStatus\<close> this is every call that returns:
  every \<^verbatim>\<open>nbClauses\<close> and every backing array, the calls that lengthen the slice included.
\<close>

theorem Status_is_monotone:
  "(updateStatus pb spare n = Inr pb' \<longrightarrow> status_monotone pb pb') \<and>
   (addUnit pb l = Inr pb' \<longrightarrow> status_monotone pb pb') \<and>
   (Simplify2 pb = Inr pb' \<longrightarrow> status_monotone pb pb') \<and>
   (SelfSub ops pb = Some (Inr pb') \<longrightarrow> status_monotone pb pb') \<and>
   (Subsumption ops pb = Inr pb' \<longrightarrow> status_monotone pb pb') \<and>
   (Preprocess ops pb = Some (Inr pb') \<longrightarrow> status_monotone pb pb')"
proof (intro conjI impI)
  assume "updateStatus pb spare n = Inr pb'"
  then show "status_monotone pb pb'" by (intro status_mono_monotone updateStatus_status)
next
  assume "addUnit pb l = Inr pb'"
  from addUnit_status[OF this] show "status_monotone pb pb'"
    by (auto simp: status_monotone_def status_kept_def)
next
  assume "Simplify2 pb = Inr pb'"
  then show "status_monotone pb pb'" by (intro status_mono_monotone Simplify2_status)
next
  assume "SelfSub ops pb = Some (Inr pb')"
  then show "status_monotone pb pb'" by (intro status_mono_monotone SelfSub_status)
next
  assume "Subsumption ops pb = Inr pb'"
  then show "status_monotone pb pb'" by (intro status_mono_monotone Subsumption_status)
next
  assume "Preprocess ops pb = Some (Inr pb')"
  then show "status_monotone pb pb'" by (rule Preprocess_status)
qed

theorem Status_is_monotone_witness:
  "Status (freshProblem 2 [[1, 2], [0, 2]]) = Undetermined
   \<and> Preprocess spec_ops (freshProblem 2 [[1, 2], [0, 2]])
     = Some (Inr \<lparr>NbVars = 2, Clauses = [], Status = Sat, Units = [2], Model = [0, 1],
                  Store = [[1, 2], [0, 2]]\<rparr>)
   \<and> status_monotone (freshProblem 2 [[1, 2], [0, 2]])
        \<lparr>NbVars = 2, Clauses = [], Status = Sat, Units = [2], Model = [0, 1],
         Store = [[1, 2], [0, 2]]\<rparr>
   \<and> updateStatus
        \<lparr>NbVars = 2, Clauses = [0], Status = Unsat, Units = [], Model = [0, 0],
         Store = [[0, 2], [1, 2]]\<rparr> [1] 2
     = Inr \<lparr>NbVars = 2, Clauses = [0, 1], Status = Unsat, Units = [], Model = [0, 0],
            Store = [[0, 2], [1, 2]]\<rparr>
   \<and> status_monotone
        \<lparr>NbVars = 2, Clauses = [0], Status = Unsat, Units = [], Model = [0, 0],
         Store = [[0, 2], [1, 2]]\<rparr>
        \<lparr>NbVars = 2, Clauses = [0, 1], Status = Unsat, Units = [], Model = [0, 0],
         Store = [[0, 2], [1, 2]]\<rparr>"
proof -
  have run: "Preprocess spec_ops (freshProblem 2 [[1, 2], [0, 2]])
     = Some (Inr \<lparr>NbVars = 2, Clauses = [], Status = Sat, Units = [2], Model = [0, 1],
                  Store = [[1, 2], [0, 2]]\<rparr>)"
    by code_simp
  have start: "Status (freshProblem 2 [[1, 2], [0, 2]]) = Undetermined"
    by (simp add: freshProblem_def)
  from Status_is_monotone[where pb = "freshProblem 2 [[1, 2], [0, 2]]" and ops = spec_ops
      and pb' = "\<lparr>NbVars = 2, Clauses = [], Status = Sat, Units = [2], Model = [0, 1],
         Store = [[1, 2], [0, 2]]\<rparr>"] run
  have mono: "status_monotone (freshProblem 2 [[1, 2], [0, 2]])
        \<lparr>NbVars = 2, Clauses = [], Status = Sat, Units = [2], Model = [0, 1],
         Store = [[1, 2], [0, 2]]\<rparr>"
    by blast
  have longer: "updateStatus
        \<lparr>NbVars = 2, Clauses = [0], Status = Unsat, Units = [], Model = [0, 0],
         Store = [[0, 2], [1, 2]]\<rparr> [1] 2
     = Inr \<lparr>NbVars = 2, Clauses = [0, 1], Status = Unsat, Units = [], Model = [0, 0],
            Store = [[0, 2], [1, 2]]\<rparr>"
    by (simp add: updateStatus_def)
  from Status_is_monotone[where pb = "\<lparr>NbVars = 2, Clauses = [0], Status = Unsat,
         Units = [], Model = [0, 0], Store = [[0, 2], [1, 2]]\<rparr>" and spare = "[1]" and n = 2
      and pb' = "\<lparr>NbVars = 2, Clauses = [0, 1], Status = Unsat, Units = [], Model = [0, 0],
         Store = [[0, 2], [1, 2]]\<rparr>"] longer
  have mono2: "status_monotone
        \<lparr>NbVars = 2, Clauses = [0], Status = Unsat, Units = [], Model = [0, 0],
         Store = [[0, 2], [1, 2]]\<rparr>
        \<lparr>NbVars = 2, Clauses = [0, 1], Status = Unsat, Units = [], Model = [0, 0],
         Store = [[0, 2], [1, 2]]\<rparr>"
    by blast
  from start run mono longer mono2 show ?thesis by (intro conjI)
qed

text \<open>
  A formula on which \<^verbatim>\<open>SelfSub\<close> derives the unit \<open>x\<^sub>2\<close> from the first two clauses and the
  unit \<open>\<not>x\<^sub>2\<close> from the next two: the clauses \<open>x\<^sub>1 \<or> x\<^sub>2\<close>, \<open>\<not>x\<^sub>1 \<or> x\<^sub>2\<close>, \<open>x\<^sub>3 \<or> \<not>x\<^sub>2\<close>,
  \<open>\<not>x\<^sub>3 \<or> \<not>x\<^sub>2\<close>, \<open>x\<^sub>4 \<or> x\<^sub>5\<close>, \<open>x\<^sub>4 \<or> x\<^sub>5 \<or> x\<^sub>6\<close>; the problem as \<^verbatim>\<open>SelfSub\<close> leaves it
  (Status Unsat), and as \<^verbatim>\<open>Subsumption\<close> then leaves it.
\<close>

definition conflictExample :: Problem where
  "conflictExample = freshProblem 6 [[0, 2], [1, 2], [4, 3], [5, 3], [6, 8], [6, 8, 10]]"

definition conflictAfterSelfSub :: Problem where
  "conflictAfterSelfSub =
     \<lparr>NbVars = 6, Clauses = [5, 4, 2, 3], Status = Unsat, Units = [2],
      Model = [0, 1, 0, 0, 0, 0],
      Store = [[0, 2], [1, 2], [4, 3], [5, 3], [6, 8], [6, 8, 10]]\<rparr>"

definition conflictAfterSubsumption :: Problem where
  "conflictAfterSubsumption =
     \<lparr>NbVars = 6, Clauses = [4, 2, 3], Status = Unsat, Units = [2, 4],
      Model = [0, 1, 1, 0, 0, 0],
      Store = [[0, 2], [1, 2], [4, 3], [5, 3], [6, 8], [6, 8, 10]]\<rparr>"

text \<open>
  Claim C3 as stated (once Status is Unsat every further pass changes nothing) fails: no
  pass looks at Status when it starts, and \<^verbatim>\<open>Preprocess\<close> calls \<^verbatim>\<open>Subsumption\<close> whatever
  \<^verbatim>\<open>SelfSub\<close> found. On the formula above \<^verbatim>\<open>SelfSub\<close> returns with Status Unsat, and
  \<^verbatim>\<open>Subsumption\<close> then removes the subsumed clause \<open>x\<^sub>4 \<or> x\<^sub>5 \<or> x\<^sub>6\<close>, binds \<open>x\<^sub>3\<close> and
  appends it to Units.
\<close>

theorem Subsumption_changes_Unsat_problem:
  "SelfSub spec_ops conflictExample = Some (Inr conflictAfterSelfSub)
   \<and> Status conflictAfterSelfSub = Unsat
   \<and> Subsumption spec_ops conflictAfterSelfSub = Inr conflictAfterSubsumption
   \<and> Clauses conflictAfterSubsumption \<noteq> Clauses conflictAfterSelfSub
   \<and> Units conflictAfterSubsumption \<noteq> Units conflictAfterSelfSub
   \<and> Model conflictAfterSubsumption \<noteq> Model conflictAfterSelfSub"
  by code_simp

text \<open>
  Claim C3, amended: once Status is Unsat, every further pass (\<^verbatim>\<open>Simplify2\<close>,
  \<^verbatim>\<open>Subsumption\<close>, \<^verbatim>\<open>SelfSub\<close>) that returns leaves Status Unsat; Clauses, Units and the
  Model may still change.
\<close>

theorem Unsat_status_persists:
  assumes "Status pb = Unsat"
  shows "(Simplify2 pb = Inr pb' \<longrightarrow> Status pb' = Unsat) \<and>
         (Subsumption ops pb = Inr pb' \<longrightarrow> Status pb' = Unsat) \<and>
         (SelfSub ops pb = Some (Inr pb') \<longrightarrow> Status pb' = Unsat)"
proof (intro conjI impI)
  assume "Simplify2 pb = Inr pb'"
  from Simplify2_status[OF this] assms show "Status pb' = Unsat"
    by (simp add: status_mono_def status_kept_def)
next
  assume "Subsumption ops pb = Inr pb'"
  from Subsumption_status[OF this] assms show "Status pb' = Unsat"
    by (simp add: status_mono_def status_kept_def)
next
  assume "SelfSub ops pb = Some (Inr pb')"
  from SelfSub_status[OF this] assms show "Status pb' = Unsat"
    by (simp add: status_mono_def status_kept_def)
qed

theorem Unsat_status_persists_witness:
  "Status conflictAfterSelfSub = Unsat
   \<and> Subsumption spec_ops conflictAfterSelfSub = Inr conflictAfterSubsumption
   \<and> Status conflictAfterSubsumption = Unsat"
proof -
  have start: "Status conflictAfterSelfSub = Unsat"
    by (simp add: conflictAfterSelfSub_def)
  have run: "Subsumption spec_ops conflictAfterSelfSub = Inr conflictAfterSubsumption"
    by code_simp
  from Unsat_status_persists[OF start, of conflictAfterSubsumption spec_ops] run
  have "Status conflictAfterSubsumption = Unsat" by blast
  with start run show ?thesis by (intro conjI)
qed

text \<open>
  A formula on which a first run of \<^verbatim>\<open>Preprocess\<close> leaves work for a second one: the
  clauses \<open>x\<^sub>1 \<or> x\<^sub>2\<close>, \<open>\<not>x\<^sub>1 \<or> x\<^sub>2\<close>, \<open>\<not>x\<^sub>2 \<or> x\<^sub>3 \<or> x\<^sub>4\<close>, \<open>\<not>x\<^sub>3 \<or> x\<^sub>4 \<or> x\<^sub>5\<close>; the problem
  after the first run and after the second run.
\<close>

definition twoRunsExample :: Problem where
  "twoRunsExample = freshProblem 5 [[0, 2], [1, 2], [3, 4, 6], [5, 6, 8]]"

definition twoRunsAfterFirst :: Problem where
  "twoRunsAfterFirst =
     \<lparr>NbVars = 5, Clauses = [3, 2], Status = Undetermined, Units = [2],
      Model = [0, 1, 0, 0, 0], Store = [[0, 2], [1, 2], [6, 4], [5, 6, 8]]\<rparr>"

definition twoRunsAfterSecond :: Problem where
  "twoRunsAfterSecond =
     \<lparr>NbVars = 5, Clauses = [4, 2], Status = Undetermined, Units = [2],
      Model = [0, 1, 0, 0, 0], Store = [[0, 2], [1, 2], [6, 4], [5, 6, 8], [6, 8]]\<rparr>"




text \<open>
  Claim C5 (\<^verbatim>\<open>SelfSub\<close> performs pair tests for a variable only when the variable is
  unbound, one of its two occurrence lists has fewer than 10 entries, and both lists
  are non-empty). The guard in the code asks that one of the lists be non-empty; the
  pair tests range over the product of the two lists, so none happens when either is
  empty. \<open>ss_tests\<close> records every pair test (second part); for a variable that does
  not meet the three conditions the body of the loop hands back the state as it got
  it, \<open>ss_tests\<close> included (first part).
\<close>

theorem pair_tests_need_guard:
  "(selfSubVar ops st i = Inr r \<and>
      \<not> (Model (ss_pb st) ! i = 0
          \<and> (length (ss_occurs st ! var_Lit i) < 10
              \<or> length (ss_occurs st ! Negation (var_Lit i)) < 10)
          \<and> ss_occurs st ! var_Lit i \<noteq> [] \<and> ss_occurs st ! Negation (var_Lit i) \<noteq> [])
    \<longrightarrow> r = SNext st)
   \<and> (pairStep ops st v idx1 idx2 = Inr p \<and> (p = PNext st' \<or> p = PBreak st')
    \<longrightarrow> ss_tests st' = ss_tests st @ [(idx1, idx2)])"
proof (intro conjI impI)
  assume "pairStep ops st v idx1 idx2 = Inr p \<and> (p = PNext st' \<or> p = PBreak st')"
  then show "ss_tests st' = ss_tests st @ [(idx1, idx2)]"
    by (auto dest: pairStep_tests)
next
  assume a: "selfSubVar ops st i = Inr r \<and>
      \<not> (Model (ss_pb st) ! i = 0
          \<and> (length (ss_occurs st ! var_Lit i) < 10
              \<or> length (ss_occurs st ! Negation (var_Lit i)) < 10)
          \<and> ss_occurs st ! var_Lit i \<noteq> [] \<and> ss_occurs st ! Negation (var_Lit i) \<noteq> [])"
  then have run: "selfSubVar ops st i = Inr r" by simp
  then have m: "at (Model (ss_pb st)) i = Inr (Model (ss_pb st) ! i)"
    by (auto simp: selfSubVar_def ebind_Inr_iff at_Inr_iff)
  show "r = SNext st"
  proof (cases "Model (ss_pb st) ! i = 0")
    case False
    with run m show ?thesis by (simp add: selfSubVar_def)
  next
    case True
    with run m have
      poss: "at (ss_occurs st) (var_Lit i) = Inr (ss_occurs st ! var_Lit i)" and
      negs: "at (ss_occurs st) (Negation (var_Lit i)) = Inr (ss_occurs st ! Negation (var_Lit i))"
      by (auto simp: selfSubVar_def ebind_Inr_iff at_Inr_iff Let_def)
    show ?thesis
    proof (cases "(length (ss_occurs st ! var_Lit i) < 10
              \<or> length (ss_occurs st ! Negation (var_Lit i)) < 10)
          \<and> (length (ss_occurs st ! var_Lit i) \<noteq> 0
              \<or> length (ss_occurs st ! Negation (var_Lit i)) \<noteq> 0)")
      case False
      with run m True poss negs show ?thesis
        by (auto simp: selfSubVar_def Let_def split: if_splits)
    next
      case guard: True
      with run m True poss negs
      have scan: "scanIdx1 ops st i (ss_occurs st ! var_Lit i) = Inr r"
        by (simp add: selfSubVar_def Let_def)
      from a True guard consider "ss_occurs st ! var_Lit i = []"
        | "ss_occurs st ! Negation (var_Lit i) = []" by auto
      then show ?thesis
      proof cases
        case 1
        with scan show ?thesis by simp
      next
        case 2
        with negs scanIdx1_no_negs[of st i ops "ss_occurs st ! var_Lit i"] scan
        show ?thesis by simp
      qed
    qed
  qed
qed

text \<open>A state in which the variable \<open>x\<^sub>1\<close> occurs positively in two clauses and negatively
  in none: the code's guard lets it through, and no pair is tested.\<close>

definition guardExample :: ss_state where
  "guardExample =
     \<lparr>ss_pb = freshProblem 3 [[0, 2], [0, 4]], ss_occurs = [[0, 1], [], [0], [], [1], []],
      ss_modified = False, ss_never = True, ss_tests = []\<rparr>"

theorem pair_tests_need_guard_witness:
  "buildOccurs (ss_pb guardExample) = Inr (ss_occurs guardExample)
   \<and> length (ss_occurs guardExample ! var_Lit 0) = 2
   \<and> ss_occurs guardExample ! Negation (var_Lit 0) = []
   \<and> selfSubVar spec_ops guardExample 0 = Inr (SNext guardExample)
   \<and> pairStep spec_ops guardExample 0 0 1
       = Inr (PNext (guardExample\<lparr>ss_tests := [(0, 1)]\<rparr>))"
proof -
  have occ: "buildOccurs (ss_pb guardExample) = Inr (ss_occurs guardExample)"
    "length (ss_occurs guardExample ! var_Lit 0) = 2"
    "ss_occurs guardExample ! Negation (var_Lit 0) = []"
    by code_simp+
  have run: "selfSubVar spec_ops guardExample 0 = Inr (SNext guardExample)"
    by code_simp
  have pair: "pairStep spec_ops guardExample 0 0 1
       = Inr (PNext (guardExample\<lparr>ss_tests := [(0, 1)]\<rparr>))"
    by code_simp
  have cond: "\<not> (Model (ss_pb guardExample) ! 0 = 0
          \<and> (length (ss_occurs guardExample ! var_Lit 0) < 10
              \<or> length (ss_occurs guardExample ! Negation (var_Lit 0)) < 10)
          \<and> ss_occurs guardExample ! var_Lit 0 \<noteq> []
          \<and> ss_occurs guardExample ! Negation (var_Lit 0) \<noteq> [])"
    using occ(3) by simp
  from pair_tests_need_guard[of spec_ops guardExample 0 "SNext guardExample" 0 0 1
      "PNext (guardExample\<lparr>ss_tests := [(0, 1)]\<rparr>)" "guardExample\<lparr>ss_tests := [(0, 1)]\<rparr>"]
    run pair cond
  have "SNext guardExample = SNext guardExample
    \<and> ss_tests (guardExample\<lparr>ss_tests := [(0, 1)]\<rparr>) = ss_tests guardExample @ [(0, 1)]"
    by blast
  with occ run pair show ?thesis by blast
qed

text \<open>
  A database of one clause that holds both literals of \<open>x\<^sub>1\<close>: \<open>x\<^sub>1 \<or> \<not>x\<^sub>1 \<or> x\<^sub>2 \<or> x\<^sub>3\<close>. Its
  position is in both occurrence lists of \<open>x\<^sub>1\<close>, so \<^verbatim>\<open>SelfSub\<close> tests the pair
  \<open>idx1 = idx2 = 0\<close>.

  Claim C4 as stated (when both directions hold and the resolvent has at least two
  literals, the database becomes the old one minus the two clauses plus the resolvent,
  for every pair of valid positions) fails on this database at the pair of positions
  \<open>(0, 0)\<close>: both directions hold, the resolvent is \<open>x\<^sub>2 \<or> x\<^sub>3\<close>, and the pair test leaves
  the database empty, which is not the old one minus the clause plus the resolvent.
\<close>

definition tautExample :: ss_state where
  "tautExample =
     \<lparr>ss_pb = freshProblem 3 [[0, 1, 2, 4]],
      ss_occurs = [[0], [0], [0], [], [0], []],
      ss_modified = False, ss_never = True, ss_tests = []\<rparr>"

definition tautExampleAfter :: ss_state where
  "tautExampleAfter =
     \<lparr>ss_pb = \<lparr>NbVars = 3, Clauses = [], Status = Undetermined, Units = [],
               Model = [0, 0, 0], Store = [[0, 1, 2, 4], [2, 4]]\<rparr>,
      ss_occurs = [[], [], [], [], [], []],
      ss_modified = True, ss_never = False, ss_tests = [(0, 0)]\<rparr>"

theorem same_position_loses_resolvent:
  "buildOccurs (ss_pb tautExample) = Inr (ss_occurs tautExample)
   \<and> clauseDB (ss_pb tautExample) = [[0, 1, 2, 4]]
   \<and> selfSubsumes spec_ops [0, 1, 2, 4] [0, 1, 2, 4]
   \<and> simplify spec_ops (generate spec_ops [0, 1, 2, 4] [0, 1, 2, 4] 0) = (False, [2, 4])
   \<and> pairStep spec_ops tautExample 0 0 0 = Inr (PBreak tautExampleAfter)
   \<and> clauseDB (ss_pb tautExampleAfter) = []
   \<and> mset (clauseDB (ss_pb tautExampleAfter))
       \<noteq> mset (clauseDB (ss_pb tautExample)) - {#[0, 1, 2, 4]#} - {#[0, 1, 2, 4]#}
           + {#[2, 4]#}"
proof -
  have e: "buildOccurs (ss_pb tautExample) = Inr (ss_occurs tautExample)"
    "clauseDB (ss_pb tautExample) = [[0, 1, 2, 4]]"
    "selfSubsumes spec_ops [0, 1, 2, 4] [0, 1, 2, 4]"
    "simplify spec_ops (generate spec_ops [0, 1, 2, 4] [0, 1, 2, 4] 0) = (False, [2, 4])"
    "pairStep spec_ops tautExample 0 0 0 = Inr (PBreak tautExampleAfter)"
    "clauseDB (ss_pb tautExampleAfter) = []"
    by code_simp+
  then show ?thesis by simp
qed

text \<open>
  Claim C4, amended: for every pair of distinct valid positions \<open>idx1 \<noteq> idx2\<close> (either
  may be the last one), when both directions hold and the simplified resolvent is not
  trivially satisfied and has at least two literals, the pair test succeeds without a
  panic, rebuilds the index, sets \<^verbatim>\<open>modified\<close>, and the clauses of the database are
  those of before minus the two tested clauses plus the resolvent. (The literals of
  the resolvent have to be literals of the problem's variables, or the rebuild of the
  index panics.)
\<close>

theorem both_directions_replace_pair:
  assumes idx: "idx1 < length (Clauses (ss_pb st))" "idx2 < length (Clauses (ss_pb st))"
      "idx1 \<noteq> idx2"
    and wf: "wf_db (ss_pb st)"
    and guard: "Negation (var_Lit v) < length (ss_occurs st)"
      "ss_occurs st ! Negation (var_Lit v) \<noteq> []"
    and c1: "c1 = clauseDB (ss_pb st) ! idx1" and c2: "c2 = clauseDB (ss_pb st) ! idx2"
    and both: "selfSubsumes ops c1 c2" "selfSubsumes ops c2 c1"
    and res: "simplify ops (generate ops c1 c2 v) = (False, newC)" "2 \<le> length newC"
      "\<forall>l\<in>set newC. l < NbVars (ss_pb st) * 2"
  shows "\<exists>st'. pairStep ops st v idx1 idx2 = Inr (PBreak st')
           \<and> ss_modified st' \<and> \<not> ss_never st'
           \<and> buildOccurs (ss_pb st') = Inr (ss_occurs st')
           \<and> mset (clauseDB (ss_pb st'))
               = mset (clauseDB (ss_pb st)) - {#c1#} - {#c2#} + {#newC#}"
proof -
  define pb where "pb = ss_pb st"
  define st1 where "st1 = st\<lparr>ss_tests := ss_tests st @ [(idx1, idx2)]\<rparr>"
  define pbA where "pbA = pb\<lparr>Store := Store pb @ [newC],
                           Clauses := Clauses pb @ [length (Store pb)]\<rparr>"
  define cs1 where "cs1 = butlast ((Clauses pbA)[idx1 := last (Clauses pbA)])"
  define cs2 where "cs2 = butlast (cs1[idx2 := last cs1])"
  define pbB where "pbB = pbA\<lparr>Clauses := cs2\<rparr>"
  from wf have valid: "\<forall>a\<in>set (Clauses pb). a < length (Store pb)"
    by (auto simp: wf_db_def clause_ok_def pb_def)
  from idx valid have a: "Clauses pb ! idx1 < length (Store pb)"
    "Clauses pb ! idx2 < length (Store pb)" by (auto simp: pb_def)
  from idx c1 c2 have c: "c1 = Store pb ! (Clauses pb ! idx1)" "c2 = Store pb ! (Clauses pb ! idx2)"
    by (simp_all add: clauseDB_def pb_def)
  have len1: "length cs1 = length (Clauses pb)" by (simp add: cs1_def pbA_def)
  have rm1: "swapRemove pbA idx1 = Inr (pbA\<lparr>Clauses := cs1\<rparr>)"
    using idx(1) by (simp add: swapRemove_Inr cs1_def pbA_def pb_def)
  have rm2: "swapRemove (pbA\<lparr>Clauses := cs1\<rparr>) idx2 = Inr pbB"
    using idx(2) len1 by (simp add: swapRemove_Inr cs2_def pbB_def pb_def)
  have "set cs2 \<subseteq> set cs1" unfolding cs2_def by (rule set_swap_remove)
  also have "\<dots> \<subseteq> set (Clauses pbA)" unfolding cs1_def by (rule set_swap_remove)
  finally have "set cs2 \<subseteq> set (Clauses pb @ [length (Store pb)])" by (simp add: pbA_def)
  from wf_db_after_removal[OF wf[folded pb_def] res(3)[folded pb_def] this]
  have "wf_db pbB" by (simp add: pbB_def pbA_def)
  from buildOccurs_ok[OF this] obtain occ where occ: "buildOccurs pbB = Inr occ" by blast
  define st' where "st' = st1\<lparr>ss_pb := pbB, ss_occurs := occ, ss_modified := True,
                                ss_never := False\<rparr>"
  have add: "addResolvent ops (ss_pb st1) (generate ops c1 c2 v) = Inr (Go_on pbA)"
    using addResolvent_append[OF res(1,2), of pb] by (simp add: st1_def pbA_def pb_def)
  have negs: "at (ss_occurs st1) (Negation (var_Lit v))
                = Inr (ss_occurs st ! Negation (var_Lit v))"
    using guard(1) by (simp add: at_def st1_def)
  have "resolveBranch ops st1 v (generate ops c1 c2 v) [idx1, idx2] = Inr (PBreak st')"
    using guard(2) by (simp add: resolveBranch_def add negs rm1 rm2 rebuildBreak_def occ st'_def)
  moreover have "pairStep ops st v idx1 idx2
      = resolveBranch ops st1 v (generate ops c1 c2 v) [idx1, idx2]"
    using idx a both c
    by (simp add: pairStep_def Let_def at_def deref_def st1_def pb_def)
  ultimately have run: "pairStep ops st v idx1 idx2 = Inr (PBreak st')" by simp
  have dbA: "clauseDB pbA = clauseDB pb @ [newC]"
    unfolding pbA_def by (rule clauseDB_append[OF valid])
  have db1: "clauseDB (pbA\<lparr>Clauses := cs1\<rparr>)
      = butlast ((clauseDB pb @ [newC])[idx1 := last (clauseDB pb @ [newC])])"
    using clauseDB_swapRemove[OF rm1] by (simp only: dbA)
  have "clauseDB pbB = butlast ((clauseDB (pbA\<lparr>Clauses := cs1\<rparr>))
      [idx2 := last (clauseDB (pbA\<lparr>Clauses := cs1\<rparr>))])"
    by (rule clauseDB_swapRemove[OF rm2])
  moreover from idx have "idx1 < length (clauseDB pb)" "idx2 < length (clauseDB pb)"
    by (simp_all add: clauseDB_def pb_def)
  note both_removed_mset[OF this idx(3) db1]
  ultimately
  have "mset (clauseDB pbB) = mset (clauseDB pb) - {#c1#} - {#c2#} + {#newC#}"
    using c1 c2 by (simp add: pb_def)
  with run occ show ?thesis by (auto simp: st'_def pb_def)
qed

text \<open>The clauses \<open>x\<^sub>1 \<or> x\<^sub>2 \<or> x\<^sub>3\<close> and \<open>\<not>x\<^sub>1 \<or> x\<^sub>2 \<or> x\<^sub>3\<close>, the second at the last
  position.\<close>

definition pairExample :: ss_state where
  "pairExample =
     \<lparr>ss_pb = freshProblem 3 [[0, 2, 4], [1, 2, 4]],
      ss_occurs = [[0], [1], [0, 1], [], [0, 1], []],
      ss_modified = False, ss_never = True, ss_tests = []\<rparr>"

definition pairExampleAfter :: ss_state where
  "pairExampleAfter =
     \<lparr>ss_pb = \<lparr>NbVars = 3, Clauses = [2], Status = Undetermined, Units = [],
               Model = [0, 0, 0], Store = [[0, 2, 4], [1, 2, 4], [2, 4]]\<rparr>,
      ss_occurs = [[], [], [0], [], [0], []],
      ss_modified = True, ss_never = False, ss_tests = [(0, 1)]\<rparr>"

theorem both_directions_replace_pair_witness:
  "clauseDB (ss_pb pairExample) = [[0, 2, 4], [1, 2, 4]]
   \<and> pairStep spec_ops pairExample 0 0 1 = Inr (PBreak pairExampleAfter)
   \<and> clauseDB (ss_pb pairExampleAfter) = [[2, 4]]
   \<and> mset (clauseDB (ss_pb pairExampleAfter))
       = mset (clauseDB (ss_pb pairExample)) - {#[0, 2, 4]#} - {#[1, 2, 4]#} + {#[2, 4]#}"
proof -
  have db: "clauseDB (ss_pb pairExample) = [[0, 2, 4], [1, 2, 4]]"
    "clauseDB (ss_pb pairExampleAfter) = [[2, 4]]"
    by code_simp+
  have run: "pairStep spec_ops pairExample 0 0 1 = Inr (PBreak pairExampleAfter)"
    by code_simp
  have h: "0 < length (Clauses (ss_pb pairExample))" "1 < length (Clauses (ss_pb pairExample))"
    "(0::nat) \<noteq> 1" "wf_db (ss_pb pairExample)"
    "Negation (var_Lit 0) < length (ss_occurs pairExample)"
    "ss_occurs pairExample ! Negation (var_Lit 0) \<noteq> []"
    "[0, 2, 4] = clauseDB (ss_pb pairExample) ! 0"
    "[1, 2, 4] = clauseDB (ss_pb pairExample) ! 1"
    "selfSubsumes spec_ops [0, 2, 4] [1, 2, 4]" "selfSubsumes spec_ops [1, 2, 4] [0, 2, 4]"
    "simplify spec_ops (generate spec_ops [0, 2, 4] [1, 2, 4] 0) = (False, [2, 4])"
    "2 \<le> length [2, 4 :: nat]"
    "\<forall>l\<in>set [2, 4]. l < NbVars (ss_pb pairExample) * 2"
    by code_simp+
  from both_directions_replace_pair[OF h] run
  have "mset (clauseDB (ss_pb pairExampleAfter))
       = mset (clauseDB (ss_pb pairExample)) - {#[0, 2, 4]#} - {#[1, 2, 4]#} + {#[2, 4]#}"
    by auto
  with db run show ?thesis by simp
qed

text \<open>
  Two copies of \<open>x\<^sub>1 \<or> x\<^sub>2 \<or> x\<^sub>3\<close> and the shorter clause \<open>x\<^sub>1 \<or> x\<^sub>2\<close>.

  Claim C10 as stated (a position is marked only when a strictly shorter clause
  sharing a literal subsumes its clause; clauses of equal length are never tested
  against each other, so identical duplicates are never removed and both copies survive
  the pass) fails in its last part on this database: the pass removes both copies of
  the longer clause and leaves \<open>x\<^sub>1 \<or> x\<^sub>2\<close> alone.
\<close>

definition subsumedTwiceExample :: Problem where
  "subsumedTwiceExample = freshProblem 3 [[0, 2, 4], [0, 2, 4], [0, 2]]"

theorem Subsumption_removes_subsumed_duplicates:
  "clauseDB subsumedTwiceExample = [[0, 2, 4], [0, 2, 4], [0, 2]]
   \<and> Subsumption spec_ops subsumedTwiceExample
       = Inr \<lparr>NbVars = 3, Clauses = [2], Status = Undetermined, Units = [],
              Model = [0, 0, 0], Store = [[0, 2, 4], [0, 2, 4], [0, 2]]\<rparr>
   \<and> clauseDB \<lparr>NbVars = 3, Clauses = [2], Status = Undetermined, Units = [],
              Model = [0, 0, 0], Store = [[0, 2, 4], [0, 2, 4], [0, 2]]\<rparr> = [[0, 2]]"
  by code_simp

text \<open>
  Claim C10, amended: \<^verbatim>\<open>Subsumption\<close> marks a position only when a strictly shorter
  clause of the database that shares a literal with its clause subsumes it (first
  part); a pair of clauses of equal length leaves \<^verbatim>\<open>toRemove\<close> as it was, whatever the
  subsumption test would answer (second part); so a clause is never marked on account
  of an identical duplicate, and in a database whose clauses all have the same length
  nothing is marked and the removal of the marked positions keeps every clause (third
  part).
\<close>

theorem Subsumption_marks_need_shorter_clause:
  "(subsumptionMarks ops pb = Inr toRemove \<and> idx \<in> set toRemove
      \<longrightarrow> has_shorter_subsumer ops pb idx)
   \<and> (markPair ops pb t idx1 idx2 = Inr t'
        \<and> length (clauseDB pb ! idx1) = length (clauseDB pb ! idx2) \<longrightarrow> t' = t)
   \<and> (subsumptionMarks ops pb = Inr toRemove
        \<and> (\<forall>c\<in>set (clauseDB pb). \<forall>d\<in>set (clauseDB pb). length c = length d)
      \<longrightarrow> toRemove = [] \<and> keepUnmarked (Clauses pb) toRemove = Clauses pb)"
proof -
  have 1: "has_shorter_subsumer ops pb idx"
    if "subsumptionMarks ops pb = Inr toRemove \<and> idx \<in> set toRemove"
    using that subsumptionMarks_ok[of ops pb toRemove] by blast
  have 2: "t' = t"
    if "markPair ops pb t idx1 idx2 = Inr t'
        \<and> length (clauseDB pb ! idx1) = length (clauseDB pb ! idx2)"
    using that markPair_Inr[of ops pb t idx1 idx2 t'] by auto
  have 3: "toRemove = [] \<and> keepUnmarked (Clauses pb) toRemove = Clauses pb"
    if a: "subsumptionMarks ops pb = Inr toRemove
        \<and> (\<forall>c\<in>set (clauseDB pb). \<forall>d\<in>set (clauseDB pb). length c = length d)"
  proof -
    have "toRemove = []"
    proof (rule ccontr)
      assume "toRemove \<noteq> []"
      then obtain idx where "idx \<in> set toRemove" by (cases toRemove) auto
      with a subsumptionMarks_ok[of ops pb toRemove] have "has_shorter_subsumer ops pb idx"
        by blast
      then obtain idx' where k: "idx < length (clauseDB pb)" "idx' < length (clauseDB pb)"
        "length (clauseDB pb ! idx') < length (clauseDB pb ! idx)"
        by (auto simp: has_shorter_subsumer_def)
      from k(1,2) have "clauseDB pb ! idx \<in> set (clauseDB pb)"
        "clauseDB pb ! idx' \<in> set (clauseDB pb)" by simp_all
      with a have "length (clauseDB pb ! idx') = length (clauseDB pb ! idx)" by blast
      with k(3) show False by simp
    qed
    then show ?thesis by (simp add: keepUnmarked_none)
  qed
  from 1 2 3 show ?thesis by blast
qed

text \<open>The clause \<open>x\<^sub>1 \<or> x\<^sub>2\<close> twice; and \<open>x\<^sub>1 \<or> x\<^sub>2\<close> with \<open>x\<^sub>1 \<or> x\<^sub>2 \<or> x\<^sub>3\<close>, which it
  subsumes.\<close>

definition duplicatesExample :: Problem where
  "duplicatesExample = freshProblem 3 [[0, 2], [0, 2]]"

definition subsumedExample :: Problem where
  "subsumedExample = freshProblem 3 [[0, 2], [0, 2, 4]]"

theorem Subsumption_marks_need_shorter_clause_witness:
  "subsumptionMarks spec_ops subsumedExample = Inr [1, 1]
   \<and> has_shorter_subsumer spec_ops subsumedExample 1
   \<and> markPair spec_ops duplicatesExample [] 1 0 = Inr []
   \<and> subsumptionMarks spec_ops duplicatesExample = Inr []
   \<and> keepUnmarked (Clauses duplicatesExample) [] = Clauses duplicatesExample
   \<and> Subsumption spec_ops duplicatesExample = Inr duplicatesExample"
proof -
  have m: "subsumptionMarks spec_ops subsumedExample = Inr [1, 1]" "(1::nat) \<in> set [1, 1]"
    by code_simp+
  have p: "markPair spec_ops duplicatesExample [] 1 0 = Inr []"
    "length (clauseDB duplicatesExample ! 1) = length (clauseDB duplicatesExample ! 0)"
    by code_simp+
  have d: "subsumptionMarks spec_ops duplicatesExample = Inr []"
    "\<forall>c\<in>set (clauseDB duplicatesExample). \<forall>d\<in>set (clauseDB duplicatesExample).
       length c = length d"
    by code_simp+
  have run: "Subsumption spec_ops duplicatesExample = Inr duplicatesExample"
    by code_simp
  from Subsumption_marks_need_shorter_clause[of spec_ops subsumedExample "[1, 1]" 1]
    m
  have 1: "has_shorter_subsumer spec_ops subsumedExample 1" by blast
  from Subsumption_marks_need_shorter_clause[of spec_ops duplicatesExample "[]" _ "[]" 1 0 "[]"]
    d
  have 2: "keepUnmarked (Clauses duplicatesExample) [] = Clauses duplicatesExample" by blast
  from m p d run 1 2 show ?thesis by blast
qed




end
